theory Spec2Isabelle
  imports Main "HOL-Library.Monad_Syntax" "HOL-Library.Word"
begin

unbundle bit_operations_syntax

section \<open>Fiwix buffer cache and page cache: data model\<close>

text \<open>
  The two caches of \<^verbatim>\<open>fs/buffer.c\<close> and \<^verbatim>\<open>mm/page.c\<close> are embedded over one kernel
  state. Both tables are arenas: a C pointer to a table entry is the index of the entry
  (\<open>nat option\<close>, \<open>None\<close> for \<^verbatim>\<open>NULL\<close>). A frame is named by its page number, and the
  contents of all frames live in the store \<open>mem\<close>, so that a buffer's \<^verbatim>\<open>data\<close> and a
  page's \<^verbatim>\<open>data\<close> may name the same bytes.

  The model runs one task. \<^verbatim>\<open>sleep\<close> is a scheduling point that returns with the
  modelled state as it was, so a loop that sleeps and retries never ends, and a check
  repeated after a sleep gives the answer it gave before. Every operation returns an
  \<open>option\<close>: \<open>None\<close> stands for a call that never returns (it retries for ever, walks
  a cyclic chain for ever, panics or dereferences \<^verbatim>\<open>NULL\<close>). \<^verbatim>\<open>wakeup\<close>, \<^verbatim>\<open>printk\<close> and
  the interrupt flag have no effect on the state that is modelled.
\<close>

type_synonym byte = "8 word"
type_synonym frame = "nat \<Rightarrow> byte"

datatype bflag = BUFFER_VALID | BUFFER_LOCKED | BUFFER_DIRTY

datatype pflag = PAGE_LOCKED | PAGE_RESERVED

record buffer =
  b_dev :: nat
  b_block :: int
  b_size :: int
  b_data :: "nat option"
  b_flags :: "bflag set"
  b_prev_hash :: "nat option"
  b_next_hash :: "nat option"
  b_prev_free :: "nat option"
  b_next_free :: "nat option"
  b_prev_dirty :: "nat option"
  b_next_dirty :: "nat option"

record page =
  p_page :: nat
  p_count :: nat
  p_flags :: "pflag set"
  p_inode :: nat
  p_offset :: int
  p_dev :: nat
  p_data :: "nat option"
  p_prev_hash :: "nat option"
  p_next_hash :: "nat option"
  p_prev_free :: "nat option"
  p_next_free :: "nat option"

text \<open>
  Modelled from the spec: the block device contract of section 6
  (\<^verbatim>\<open>read_block\<close>, \<^verbatim>\<open>write_block\<close> return a byte count or a negative errno); the
  drivers and \<^verbatim>\<open>get_device\<close> are not among the sources. A device lacks a method when the
  field is \<open>None\<close>; the result of a call depends on the block. A successful read copies
  the block from \<open>disk\<close> into the frame, a successful write copies the frame to \<open>disk\<close>,
  a failed call moves no data, and a successful transfer through a \<^verbatim>\<open>NULL\<close> frame
  pointer faults.
\<close>

record device =
  read_block :: "(int \<Rightarrow> int) option"
  write_block :: "(int \<Rightarrow> int) option"

datatype io_event =
  ReadBlock nat int int
| WriteBlock nat int "nat option" int

record kernel =
  buffer_table :: "buffer list"
  buffer_head :: "nat option"
  buffer_dirty_head :: "nat option"
  buffer_hash_table :: "nat option list"
  page_table :: "page list"
  page_head :: "nat option"
  page_hash_table :: "nat option list"
  kstat_buffers :: int
  kstat_dirty :: int
  kstat_cached :: int
  kstat_free_pages :: nat
  mem :: "nat \<Rightarrow> frame"
  devices :: "nat \<Rightarrow> device option"
  disk :: "nat \<Rightarrow> int \<Rightarrow> frame"
  io_log :: "io_event list"

text \<open>
  Modelled from the spec: \<^verbatim>\<open>PAGE_SIZE\<close> is declared in a header that is not among the
  sources; the spec speaks of 4 KiB frames, and \<^verbatim>\<open>page_init\<close> turns a page count into
  KiB with \<^verbatim>\<open><<= 2\<close>.
\<close>

definition PAGE_SIZE :: nat where
  "PAGE_SIZE = 4096"

text \<open>
  Modelled from the spec: the integer types are declared in headers that are not among
  the sources. The code keeps addresses in \<^verbatim>\<open>unsigned int\<close> (\<^verbatim>\<open>addr = (unsigned int)pg->data\<close>),
  so \<^verbatim>\<open>int\<close>, \<^verbatim>\<open>long\<close> and pointers have 32 bits: \<^verbatim>\<open>__off_t\<close> and \<^verbatim>\<open>__blk_t\<close> are signed,
  \<^verbatim>\<open>__size_t\<close> and \<^verbatim>\<open>__ino_t\<close> unsigned. Values are integers; \<open>u32\<close> is the value of an
  expression of an unsigned type (also of a signed operand that C converts to unsigned),
  \<open>s32\<close> the value that an assignment leaves in a signed object (two's complement), and
  \<open>c_rem\<close> is \<^verbatim>\<open>%\<close> on signed operands, which truncates towards zero.
\<close>

definition u32 :: "int \<Rightarrow> int" where
  "u32 x = x mod 2 ^ 32"

definition s32 :: "int \<Rightarrow> int" where
  "s32 x = (x + 2 ^ 31) mod 2 ^ 32 - 2 ^ 31"

definition c_rem :: "int \<Rightarrow> int \<Rightarrow> int" where
  "c_rem a b = sgn a * (\<bar>a\<bar> mod \<bar>b\<bar>)"

definition PAGE_MASK_off :: "int \<Rightarrow> int" where
  \<comment> \<open>\<^verbatim>\<open>offset & PAGE_MASK\<close>: the offset rounded down to a page boundary\<close>
  "PAGE_MASK_off offset = offset - offset mod int PAGE_SIZE"

subsection \<open>Pointer access\<close>

definition bget :: "kernel \<Rightarrow> nat option \<Rightarrow> buffer option" where
  "bget s p = (case p of None \<Rightarrow> None
     | Some i \<Rightarrow> if i < length (buffer_table s) then Some (buffer_table s ! i) else None)"

definition bupd :: "nat \<Rightarrow> (buffer \<Rightarrow> buffer) \<Rightarrow> kernel \<Rightarrow> kernel" where
  "bupd i f s = s\<lparr>buffer_table := (buffer_table s)[i := f (buffer_table s ! i)]\<rparr>"

definition bset :: "nat option \<Rightarrow> (buffer \<Rightarrow> buffer) \<Rightarrow> kernel \<Rightarrow> kernel option" where
  \<comment> \<open>an assignment through a pointer to a buffer\<close>
  "bset p f s = (case p of None \<Rightarrow> None
     | Some i \<Rightarrow> if i < length (buffer_table s) then Some (bupd i f s) else None)"

definition set_flags :: "bflag set \<Rightarrow> buffer \<Rightarrow> buffer" where
  \<comment> \<open>\<^verbatim>\<open>buf->flags |= F\<close>\<close>
  "set_flags F b = b\<lparr>b_flags := b_flags b \<union> F\<rparr>"

definition clear_flags :: "bflag set \<Rightarrow> buffer \<Rightarrow> buffer" where
  \<comment> \<open>\<^verbatim>\<open>buf->flags &= ~F\<close>\<close>
  "clear_flags F b = b\<lparr>b_flags := b_flags b - F\<rparr>"

definition pget :: "kernel \<Rightarrow> nat option \<Rightarrow> page option" where
  "pget s p = (case p of None \<Rightarrow> None
     | Some i \<Rightarrow> if i < length (page_table s) then Some (page_table s ! i) else None)"

definition pset :: "nat option \<Rightarrow> (page \<Rightarrow> page) \<Rightarrow> kernel \<Rightarrow> kernel option" where
  "pset p f s = (case p of None \<Rightarrow> None
     | Some i \<Rightarrow> if i < length (page_table s)
         then Some (s\<lparr>page_table := (page_table s)[i := f (page_table s ! i)]\<rparr>)
         else None)"

definition slot_get :: "nat option list \<Rightarrow> nat \<Rightarrow> nat option option" where
  \<comment> \<open>read of a hash table slot; \<open>None\<close> outside the table\<close>
  "slot_get tab i = (if i < length tab then Some (tab ! i) else None)"

text \<open>
  The part of \<^verbatim>\<open>struct inode\<close> the caches read. \<open>i_blksize\<close> is \<^verbatim>\<open>i->sb->s_blocksize\<close>.
  Modelled from the spec: \<open>i_bmap\<close> is the filesystem contract
  \<^verbatim>\<open>bmap(inode, offset, mode) -> block_number\<close> (0 for a hole, negative for an error);
  \<open>True\<close> is \<^verbatim>\<open>FOR_WRITING\<close>. \<open>i_locked\<close> is the inode lock taken by \<^verbatim>\<open>inode_lock\<close>.
\<close>

record inode =
  i_inode :: nat
  i_dev :: nat
  i_size :: int
  i_blksize :: int
  i_bmap :: "int \<Rightarrow> bool \<Rightarrow> int"
  i_locked :: bool

datatype oflag = O_APPEND | O_TRUNC

record fd =
  fd_offset :: int
  fd_flags :: "oflag set"

text \<open>
  The value a file operation returns: a count, or the negation of an errno (the numbers
  of the errno codes are declared in a header that is not among the sources).
\<close>

datatype errno = EIO | ENOMEM | EINVAL

datatype retval = Val int | Neg errno

section \<open>mm/page.c: hash, free list, acquisition and release\<close>

definition PAGE_HASH :: "nat \<Rightarrow> int \<Rightarrow> kernel \<Rightarrow> nat" where
  \<comment> \<open>\<^verbatim>\<open>NR_PAGE_HASH\<close> is a quotient by \<^verbatim>\<open>sizeof\<close>, so \<^verbatim>\<open>%\<close> is taken on unsigned operands\<close>
  "PAGE_HASH ino offset s = nat (u32 (int ino XOR offset)) mod length (page_hash_table s)"

definition pg_insert_to_hash :: "nat \<Rightarrow> kernel \<Rightarrow> kernel option" where
  "pg_insert_to_hash pg s = do {
     b \<leftarrow> pget s (Some pg);
     let i = PAGE_HASH (p_inode b) (p_offset b) s;
     h \<leftarrow> slot_get (page_hash_table s) i;
     s1 \<leftarrow> (case h of
        None \<Rightarrow> pset (Some pg) (\<lambda>x. x\<lparr>p_prev_hash := None, p_next_hash := None\<rparr>)
                  (s\<lparr>page_hash_table := (page_hash_table s)[i := Some pg]\<rparr>)
      | Some old \<Rightarrow> do {
          s1 \<leftarrow> pset (Some pg) (\<lambda>x. x\<lparr>p_prev_hash := None, p_next_hash := Some old\<rparr>) s;
          s2 \<leftarrow> pset (Some old) (\<lambda>x. x\<lparr>p_prev_hash := Some pg\<rparr>) s1;
          Some (s2\<lparr>page_hash_table := (page_hash_table s2)[i := Some pg]\<rparr>) });
     Some (s1\<lparr>kstat_cached := kstat_cached s1 + int (PAGE_SIZE div 1024)\<rparr>) }"

definition pg_unlink_hash :: "nat \<Rightarrow> nat \<Rightarrow> bool \<Rightarrow> kernel \<Rightarrow> kernel option" where
  \<comment> \<open>the body of \<^verbatim>\<open>if(*h == pg)\<close>; \<open>at_head\<close> is \<^verbatim>\<open>h == &page_hash_table[i]\<close>\<close>
  "pg_unlink_hash i pg at_head s = do {
     b \<leftarrow> pget s (Some pg);
     s1 \<leftarrow> (case p_next_hash b of None \<Rightarrow> Some s
            | Some n \<Rightarrow> pset (Some n) (\<lambda>x. x\<lparr>p_prev_hash := p_prev_hash b\<rparr>) s);
     b1 \<leftarrow> pget s1 (Some pg);
     s2 \<leftarrow> (case p_prev_hash b1 of None \<Rightarrow> Some s1
            | Some q \<Rightarrow> pset (Some q) (\<lambda>x. x\<lparr>p_next_hash := p_next_hash b1\<rparr>) s1);
     b2 \<leftarrow> pget s2 (Some pg);
     let s3 = (if at_head
               then s2\<lparr>page_hash_table := (page_hash_table s2)[i := p_next_hash b2]\<rparr>
               else s2);
     Some (s3\<lparr>kstat_cached := kstat_cached s3 - int (PAGE_SIZE div 1024)\<rparr>) }"

partial_function (option) pg_remove_walk ::
  "nat \<Rightarrow> nat \<Rightarrow> bool \<Rightarrow> nat option \<Rightarrow> kernel \<Rightarrow> kernel option" where
  "pg_remove_walk i pg at_head h s =
     (case h of None \<Rightarrow> Some s
      | Some c \<Rightarrow>
          if c = pg then pg_unlink_hash i pg at_head s
          else do { cb \<leftarrow> pget s (Some c); pg_remove_walk i pg False (p_next_hash cb) s })"

declare pg_remove_walk.simps [code]

definition pg_remove_from_hash :: "nat \<Rightarrow> kernel \<Rightarrow> kernel option" where
  "pg_remove_from_hash pg s = do {
     b \<leftarrow> pget s (Some pg);
     if p_inode b = 0 then Some s
     else do {
       let i = PAGE_HASH (p_inode b) (p_offset b) s;
       h \<leftarrow> slot_get (page_hash_table s) i;
       pg_remove_walk i pg True h s } }"

definition pg_insert_on_free_list :: "nat \<Rightarrow> kernel \<Rightarrow> kernel option" where
  "pg_insert_on_free_list pg s = do {
     s1 \<leftarrow> (case page_head s of
        None \<Rightarrow> do {
          s1 \<leftarrow> pset (Some pg) (\<lambda>x. x\<lparr>p_prev_free := Some pg, p_next_free := Some pg\<rparr>) s;
          Some (s1\<lparr>page_head := Some pg\<rparr>) }
      | Some h \<Rightarrow> do {
          s1 \<leftarrow> pset (Some pg) (\<lambda>x. x\<lparr>p_next_free := Some h\<rparr>) s;
          hb \<leftarrow> pget s1 (Some h);
          s2 \<leftarrow> pset (Some pg) (\<lambda>x. x\<lparr>p_prev_free := p_prev_free hb\<rparr>) s1;
          hb2 \<leftarrow> pget s2 (Some h);
          s3 \<leftarrow> pset (p_prev_free hb2) (\<lambda>x. x\<lparr>p_next_free := Some pg\<rparr>) s2;
          pset (Some h) (\<lambda>x. x\<lparr>p_prev_free := Some pg\<rparr>) s3 });
     Some (s1\<lparr>kstat_free_pages := kstat_free_pages s1 + 1\<rparr>) }"

definition pg_remove_from_free_list :: "nat \<Rightarrow> kernel \<Rightarrow> kernel option" where
  "pg_remove_from_free_list pg s =
     (if kstat_free_pages s = 0 then Some s
      else do {
        b \<leftarrow> pget s (Some pg);
        s1 \<leftarrow> pset (p_prev_free b) (\<lambda>x. x\<lparr>p_next_free := p_next_free b\<rparr>) s;
        b1 \<leftarrow> pget s1 (Some pg);
        s2 \<leftarrow> pset (p_next_free b1) (\<lambda>x. x\<lparr>p_prev_free := p_prev_free b1\<rparr>) s1;
        let s3 = s2\<lparr>kstat_free_pages := kstat_free_pages s2 - 1\<rparr>;
        b3 \<leftarrow> pget s3 (Some pg);
        let s4 = (if page_head s3 = Some pg then s3\<lparr>page_head := p_next_free b3\<rparr> else s3);
        Some (if kstat_free_pages s4 = 0 then s4\<lparr>page_head := None\<rparr> else s4) })"

definition page_lock :: "nat \<Rightarrow> kernel \<Rightarrow> kernel option" where
  "page_lock pg s = do {
     b \<leftarrow> pget s (Some pg);
     if PAGE_LOCKED \<in> p_flags b then None
     else pset (Some pg) (\<lambda>x. x\<lparr>p_flags := insert PAGE_LOCKED (p_flags x)\<rparr>) s }"

definition page_unlock :: "nat \<Rightarrow> kernel \<Rightarrow> kernel option" where
  "page_unlock pg s = pset (Some pg) (\<lambda>x. x\<lparr>p_flags := p_flags x - {PAGE_LOCKED}\<rparr>) s"

definition get_free_page :: "kernel \<Rightarrow> (nat option \<times> kernel) option" where
  "get_free_page s =
     (if kstat_free_pages s = 0 then Some (None, s)
      else do {
        pg \<leftarrow> page_head s;
        s1 \<leftarrow> pg_remove_from_free_list pg s;
        s2 \<leftarrow> pg_remove_from_hash pg s1;
        s3 \<leftarrow> pset (Some pg) (\<lambda>x. x\<lparr>p_count := 1, p_inode := 0, p_offset := 0, p_dev := 0\<rparr>) s2;
        Some (Some pg, s3) })"

partial_function (option) pg_search_walk ::
  "inode \<Rightarrow> int \<Rightarrow> nat option \<Rightarrow> kernel \<Rightarrow> (nat option \<times> kernel) option" where
  "pg_search_walk i offset pg s =
     (case pg of None \<Rightarrow> Some (None, s)
      | Some c \<Rightarrow> do {
          b \<leftarrow> pget s (Some c);
          if p_inode b = i_inode i \<and> p_offset b = offset \<and> p_dev b = i_dev i
          then do {
            s1 \<leftarrow> (if p_count b = 0 then pg_remove_from_free_list c s else Some s);
            s2 \<leftarrow> pset (Some c) (\<lambda>x. x\<lparr>p_count := p_count x + 1\<rparr>) s1;
            Some (Some c, s2) }
          else pg_search_walk i offset (p_next_hash b) s })"

declare pg_search_walk.simps [code]

definition search_page_hash :: "inode \<Rightarrow> int \<Rightarrow> kernel \<Rightarrow> (nat option \<times> kernel) option" where
  "search_page_hash i offset s = do {
     h \<leftarrow> slot_get (page_hash_table s) (PAGE_HASH (i_inode i) offset s);
     pg_search_walk i offset h s }"

definition is_valid_page :: "int \<Rightarrow> kernel \<Rightarrow> bool" where
  "is_valid_page pg s = (pg \<ge> 0 \<and> pg < int (length (page_table s)))"

definition release_page :: "int \<Rightarrow> kernel \<Rightarrow> kernel option" where
  "release_page pn s =
     (if \<not> is_valid_page pn s then None
      else do {
        let pg = nat pn;
        b \<leftarrow> pget s (Some pg);
        if p_count b = 0 then Some s
        else do {
          s1 \<leftarrow> pset (Some pg) (\<lambda>x. x\<lparr>p_count := p_count x - 1\<rparr>) s;
          b1 \<leftarrow> pget s1 (Some pg);
          if p_count b1 > 0 then Some s1
          else do {
            s2 \<leftarrow> pg_insert_on_free_list pg s1;
            b2 \<leftarrow> pget s2 (Some pg);
            Some (if p_inode b2 = 0 then s2\<lparr>page_head := Some pg\<rparr> else s2) } } })"

text \<open>
  Modelled from the spec: \<^verbatim>\<open>kmalloc\<close> and \<^verbatim>\<open>kfree\<close> are the allocator contract
  \<^verbatim>\<open>alloc_frame() -> kernel_virtual_addr_or_null\<close>, \<^verbatim>\<open>free_frame(addr)\<close>; their source
  is not among the files. Every allocated frame corresponds to exactly one entry of the
  page table (\<^verbatim>\<open>file_read\<close> finds it as \<^verbatim>\<open>&page_table[V2P(addr) >> PAGE_SHIFT]\<close>), so a
  frame is taken with \<^verbatim>\<open>get_free_page\<close> and given back with \<^verbatim>\<open>release_page\<close>, and the
  address of a frame is its page number.
\<close>

definition kmalloc :: "kernel \<Rightarrow> (nat option \<times> kernel) option" where
  "kmalloc s = do {
     (pg, s1) \<leftarrow> get_free_page s;
     case pg of None \<Rightarrow> Some (None, s1)
     | Some p \<Rightarrow> do { b \<leftarrow> pget s1 (Some p); Some (p_data b, s1) } }"

definition kfree :: "nat \<Rightarrow> kernel \<Rightarrow> kernel option" where
  "kfree addr s = release_page (int addr) s"

section \<open>fs/buffer.c\<close>

definition BUFFER_HASH :: "nat \<Rightarrow> int \<Rightarrow> kernel \<Rightarrow> nat" where
  \<comment> \<open>\<^verbatim>\<open>NR_BUF_HASH\<close> is a quotient by \<^verbatim>\<open>sizeof\<close>, so \<^verbatim>\<open>%\<close> is taken on unsigned operands\<close>
  "BUFFER_HASH dev block s = nat (u32 (int dev XOR block)) mod length (buffer_hash_table s)"

definition insert_to_hash :: "nat \<Rightarrow> kernel \<Rightarrow> kernel option" where
  "insert_to_hash buf s = do {
     b \<leftarrow> bget s (Some buf);
     let i = BUFFER_HASH (b_dev b) (b_block b) s;
     h \<leftarrow> slot_get (buffer_hash_table s) i;
     case h of
        None \<Rightarrow> bset (Some buf) (\<lambda>x. x\<lparr>b_prev_hash := None, b_next_hash := None\<rparr>)
                  (s\<lparr>buffer_hash_table := (buffer_hash_table s)[i := Some buf]\<rparr>)
      | Some old \<Rightarrow> do {
          s1 \<leftarrow> bset (Some buf) (\<lambda>x. x\<lparr>b_prev_hash := None, b_next_hash := Some old\<rparr>) s;
          s2 \<leftarrow> bset (Some old) (\<lambda>x. x\<lparr>b_prev_hash := Some buf\<rparr>) s1;
          Some (s2\<lparr>buffer_hash_table := (buffer_hash_table s2)[i := Some buf]\<rparr>) } }"

definition unlink_hash :: "nat \<Rightarrow> nat \<Rightarrow> bool \<Rightarrow> kernel \<Rightarrow> kernel option" where
  \<comment> \<open>the body of \<^verbatim>\<open>if(*h == buf)\<close>; \<open>at_head\<close> is \<^verbatim>\<open>h == &buffer_hash_table[i]\<close>\<close>
  "unlink_hash i buf at_head s = do {
     b \<leftarrow> bget s (Some buf);
     s1 \<leftarrow> (case b_next_hash b of None \<Rightarrow> Some s
            | Some n \<Rightarrow> bset (Some n) (\<lambda>x. x\<lparr>b_prev_hash := b_prev_hash b\<rparr>) s);
     b1 \<leftarrow> bget s1 (Some buf);
     s2 \<leftarrow> (case b_prev_hash b1 of None \<Rightarrow> Some s1
            | Some q \<Rightarrow> bset (Some q) (\<lambda>x. x\<lparr>b_next_hash := b_next_hash b1\<rparr>) s1);
     b2 \<leftarrow> bget s2 (Some buf);
     Some (if at_head
           then s2\<lparr>buffer_hash_table := (buffer_hash_table s2)[i := b_next_hash b2]\<rparr>
           else s2) }"

partial_function (option) remove_walk ::
  "nat \<Rightarrow> nat \<Rightarrow> bool \<Rightarrow> nat option \<Rightarrow> kernel \<Rightarrow> kernel option" where
  "remove_walk i buf at_head h s =
     (case h of None \<Rightarrow> Some s
      | Some c \<Rightarrow>
          if c = buf then unlink_hash i buf at_head s
          else do { cb \<leftarrow> bget s (Some c); remove_walk i buf False (b_next_hash cb) s })"

declare remove_walk.simps [code]

definition remove_from_hash :: "nat \<Rightarrow> kernel \<Rightarrow> kernel option" where
  "remove_from_hash buf s = do {
     b \<leftarrow> bget s (Some buf);
     let i = BUFFER_HASH (b_dev b) (b_block b) s;
     h \<leftarrow> slot_get (buffer_hash_table s) i;
     remove_walk i buf True h s }"

definition insert_on_dirty_list :: "nat \<Rightarrow> kernel \<Rightarrow> kernel option" where
  "insert_on_dirty_list buf s = do {
     b \<leftarrow> bget s (Some buf);
     if b_prev_dirty b \<noteq> None \<or> b_next_dirty b \<noteq> None then Some s
     else do {
       s1 \<leftarrow> (case buffer_dirty_head s of None \<Rightarrow> Some s
              | Some h \<Rightarrow> do {
                  s1 \<leftarrow> bset (Some buf) (\<lambda>x. x\<lparr>b_next_dirty := Some h\<rparr>) s;
                  bset (Some h) (\<lambda>x. x\<lparr>b_prev_dirty := Some buf\<rparr>) s1 });
       Some (s1\<lparr>buffer_dirty_head := Some buf,
                kstat_dirty := kstat_dirty s1 + int (PAGE_SIZE div 1024)\<rparr>) } }"

definition remove_from_dirty_list :: "nat \<Rightarrow> kernel \<Rightarrow> kernel option" where
  "remove_from_dirty_list buf s = do {
     b \<leftarrow> bget s (Some buf);
     s1 \<leftarrow> (case b_next_dirty b of None \<Rightarrow> Some s
            | Some n \<Rightarrow> bset (Some n) (\<lambda>x. x\<lparr>b_prev_dirty := b_prev_dirty b\<rparr>) s);
     b1 \<leftarrow> bget s1 (Some buf);
     s2 \<leftarrow> (case b_prev_dirty b1 of None \<Rightarrow> Some s1
            | Some q \<Rightarrow> bset (Some q) (\<lambda>x. x\<lparr>b_next_dirty := b_next_dirty b1\<rparr>) s1);
     b2 \<leftarrow> bget s2 (Some buf);
     let s3 = (if buffer_dirty_head s2 = Some buf
               then s2\<lparr>buffer_dirty_head := b_next_dirty b2\<rparr> else s2);
     s4 \<leftarrow> bset (Some buf) (\<lambda>x. x\<lparr>b_prev_dirty := None, b_next_dirty := None\<rparr>) s3;
     s5 \<leftarrow> bset (Some buf) (clear_flags {BUFFER_DIRTY}) s4;
     Some (s5\<lparr>kstat_dirty := kstat_dirty s5 - int (PAGE_SIZE div 1024)\<rparr>) }"

definition insert_on_free_list :: "nat \<Rightarrow> kernel \<Rightarrow> kernel option" where
  "insert_on_free_list buf s =
     (case buffer_head s of
        None \<Rightarrow> do {
          s1 \<leftarrow> bset (Some buf) (\<lambda>x. x\<lparr>b_prev_free := Some buf, b_next_free := Some buf\<rparr>) s;
          Some (s1\<lparr>buffer_head := Some buf\<rparr>) }
      | Some h \<Rightarrow> do {
          s1 \<leftarrow> bset (Some buf) (\<lambda>x. x\<lparr>b_next_free := Some h\<rparr>) s;
          hb \<leftarrow> bget s1 (Some h);
          s2 \<leftarrow> bset (Some buf) (\<lambda>x. x\<lparr>b_prev_free := b_prev_free hb\<rparr>) s1;
          hb2 \<leftarrow> bget s2 (Some h);
          s3 \<leftarrow> bset (b_prev_free hb2) (\<lambda>x. x\<lparr>b_next_free := Some buf\<rparr>) s2;
          s4 \<leftarrow> bset (Some h) (\<lambda>x. x\<lparr>b_prev_free := Some buf\<rparr>) s3;
          b \<leftarrow> bget s4 (Some buf);
          Some (if BUFFER_VALID \<notin> b_flags b then s4\<lparr>buffer_head := Some buf\<rparr> else s4) })"

definition remove_from_free_list :: "nat \<Rightarrow> kernel \<Rightarrow> kernel option" where
  "remove_from_free_list buf s =
     (if buffer_head s = None then Some s
      else do {
        b \<leftarrow> bget s (Some buf);
        s1 \<leftarrow> bset (b_prev_free b) (\<lambda>x. x\<lparr>b_next_free := b_next_free b\<rparr>) s;
        b1 \<leftarrow> bget s1 (Some buf);
        s2 \<leftarrow> bset (b_next_free b1) (\<lambda>x. x\<lparr>b_prev_free := b_prev_free b1\<rparr>) s1;
        b2 \<leftarrow> bget s2 (Some buf);
        let s3 = (if buffer_head s2 = Some buf then s2\<lparr>buffer_head := b_next_free b2\<rparr> else s2);
        hb \<leftarrow> bget s3 (buffer_head s3);
        Some (if buffer_head s3 = b_next_free hb then s3\<lparr>buffer_head := None\<rparr> else s3) })"

definition buffer_wait :: "nat \<Rightarrow> kernel \<Rightarrow> kernel option" where
  "buffer_wait buf s = do {
     b \<leftarrow> bget s (Some buf);
     if BUFFER_LOCKED \<in> b_flags b then None
     else bset (Some buf) (set_flags {BUFFER_LOCKED}) s }"

definition get_free_buffer :: "kernel \<Rightarrow> (nat option \<times> kernel) option" where
  "get_free_buffer s =
     (case buffer_head s of None \<Rightarrow> Some (None, s)
      | Some buf \<Rightarrow> do {
          b \<leftarrow> bget s (Some buf);
          if BUFFER_LOCKED \<in> b_flags b then None
          else do {
            s1 \<leftarrow> remove_from_free_list buf s;
            s2 \<leftarrow> bset (Some buf) (set_flags {BUFFER_LOCKED}) s1;
            Some (Some buf, s2) } })"

definition device_written :: "buffer \<Rightarrow> nat \<Rightarrow> kernel \<Rightarrow> kernel" where
  \<comment> \<open>a successful \<^verbatim>\<open>write_block\<close>: the first \<^verbatim>\<open>size\<close> bytes of the frame reach the block\<close>
  "device_written b fr s =
     s\<lparr>disk := (disk s)(b_dev b := (disk s (b_dev b))(b_block b :=
         (\<lambda>k. if int k < b_size b then mem s fr k else disk s (b_dev b) (b_block b) k)))\<rparr>"

definition device_read :: "nat \<Rightarrow> int \<Rightarrow> int \<Rightarrow> nat \<Rightarrow> kernel \<Rightarrow> kernel" where
  \<comment> \<open>a successful \<^verbatim>\<open>read_block\<close>: the first \<^verbatim>\<open>size\<close> bytes of the block reach the frame\<close>
  "device_read dev block sz fr s =
     s\<lparr>mem := (mem s)(fr := (\<lambda>k. if int k < sz then disk s dev block k else mem s fr k))\<rparr>"

definition sync_one_buffer :: "nat \<Rightarrow> kernel \<Rightarrow> kernel option" where
  "sync_one_buffer buf s = do {
     b \<leftarrow> bget s (Some buf);
     case devices s (b_dev b) of None \<Rightarrow> Some s
     | Some d \<Rightarrow>
         (case write_block d of None \<Rightarrow> Some s
          | Some wr \<Rightarrow> do {
              let s1 = s\<lparr>io_log := io_log s @ [WriteBlock (b_dev b) (b_block b) (b_data b) (b_size b)]\<rparr>;
              if wr (b_block b) < 0 then Some s1
              else do {
                fr \<leftarrow> b_data b;
                remove_from_dirty_list buf (device_written b fr s1) } }) }"

partial_function (option) search_walk ::
  "nat \<Rightarrow> int \<Rightarrow> int \<Rightarrow> nat option \<Rightarrow> kernel \<Rightarrow> nat option option" where
  "search_walk dev block sz buf s =
     (case buf of None \<Rightarrow> Some None
      | Some c \<Rightarrow> do {
          b \<leftarrow> bget s (Some c);
          if b_dev b = dev \<and> b_block b = block \<and> b_size b = sz then Some (Some c)
          else search_walk dev block sz (b_next_hash b) s })"

declare search_walk.simps [code]

definition search_buffer_hash :: "nat \<Rightarrow> int \<Rightarrow> int \<Rightarrow> kernel \<Rightarrow> nat option option" where
  "search_buffer_hash dev block sz s = do {
     h \<leftarrow> slot_get (buffer_hash_table s) (BUFFER_HASH dev block s);
     search_walk dev block sz h s }"

definition brelse :: "nat \<Rightarrow> kernel \<Rightarrow> kernel option" where
  "brelse buf s = do {
     b \<leftarrow> bget s (Some buf);
     s1 \<leftarrow> (if BUFFER_DIRTY \<in> b_flags b then insert_on_dirty_list buf s else Some s);
     s2 \<leftarrow> insert_on_free_list buf s1;
     bset (Some buf) (clear_flags {BUFFER_LOCKED}) s2 }"

definition getblk_rebind :: "nat \<Rightarrow> nat \<Rightarrow> int \<Rightarrow> int \<Rightarrow> kernel \<Rightarrow> (nat option \<times> kernel) option" where
  \<comment> \<open>the last critical section of \<^verbatim>\<open>getblk\<close>\<close>
  "getblk_rebind buf dev block sz s = do {
     s1 \<leftarrow> remove_from_hash buf s;
     s2 \<leftarrow> bset (Some buf) (\<lambda>x. x\<lparr>b_dev := dev, b_block := block, b_size := sz\<rparr>) s1;
     s3 \<leftarrow> insert_to_hash buf s2;
     s4 \<leftarrow> bset (Some buf) (clear_flags {BUFFER_VALID}) s3;
     Some (Some buf, s4) }"

definition getblk_reuse :: "nat \<Rightarrow> nat \<Rightarrow> int \<Rightarrow> int \<Rightarrow> kernel \<Rightarrow> (nat option \<times> kernel) option" where
  \<comment> \<open>\<^verbatim>\<open>getblk\<close> from the test of \<^verbatim>\<open>BUFFER_DIRTY\<close> on, for the buffer taken from the free list\<close>
  "getblk_reuse buf dev block sz s = do {
     b \<leftarrow> bget s (Some buf);
     if BUFFER_DIRTY \<in> b_flags b
     then do { s2 \<leftarrow> sync_one_buffer buf s; getblk_rebind buf dev block sz s2 }
     else if b_data b = None
     then do {
       (a, s2) \<leftarrow> kmalloc s;
       case a of
         None \<Rightarrow> do { s3 \<leftarrow> brelse buf s2; Some (None, s3) }
       | Some fr \<Rightarrow> do {
           s3 \<leftarrow> bset (Some buf) (\<lambda>x. x\<lparr>b_data := Some fr\<rparr>) s2;
           getblk_rebind buf dev block sz
             (s3\<lparr>kstat_buffers := kstat_buffers s3 + int (PAGE_SIZE div 1024)\<rparr>) } }
     else getblk_rebind buf dev block sz s }"

definition getblk :: "nat \<Rightarrow> int \<Rightarrow> int \<Rightarrow> kernel \<Rightarrow> (nat option \<times> kernel) option" where
  "getblk dev block sz s = do {
     found \<leftarrow> search_buffer_hash dev block sz s;
     case found of
       Some buf \<Rightarrow> do {
         b \<leftarrow> bget s (Some buf);
         if BUFFER_LOCKED \<in> b_flags b then None
         else do {
           s1 \<leftarrow> bset (Some buf) (set_flags {BUFFER_LOCKED}) s;
           s2 \<leftarrow> remove_from_free_list buf s1;
           Some (Some buf, s2) } }
     | None \<Rightarrow> do {
         (g, s1) \<leftarrow> get_free_buffer s;
         case g of None \<Rightarrow> None
         | Some buf \<Rightarrow> getblk_reuse buf dev block sz s1 } }"

definition bread :: "nat \<Rightarrow> int \<Rightarrow> int \<Rightarrow> kernel \<Rightarrow> (nat option \<times> kernel) option" where
  "bread dev block sz s =
     (case devices s dev of None \<Rightarrow> Some (None, s)
      | Some d \<Rightarrow> do {
          (g, s1) \<leftarrow> getblk dev block sz s;
          case g of None \<Rightarrow> Some (None, s1)
          | Some buf \<Rightarrow> do {
              b \<leftarrow> bget s1 (Some buf);
              s2 \<leftarrow> (if BUFFER_VALID \<notin> b_flags b
                     then (case read_block d of None \<Rightarrow> Some s1
                           | Some rd \<Rightarrow> do {
                               let s2 = s1\<lparr>io_log := io_log s1 @ [ReadBlock dev block sz]\<rparr>;
                               if rd block \<ge> 0
                               then do {
                                 fr \<leftarrow> b_data b;
                                 bset (Some buf) (set_flags {BUFFER_VALID})
                                   (device_read dev block sz fr s2) }
                               else Some s2 })
                     else Some s1);
              b2 \<leftarrow> bget s2 (Some buf);
              if BUFFER_VALID \<in> b_flags b2 then Some (Some buf, s2)
              else do { s3 \<leftarrow> brelse buf s2; Some (None, s3) } } })"

definition bwrite :: "nat \<Rightarrow> kernel \<Rightarrow> kernel option" where
  "bwrite buf s = do {
     s1 \<leftarrow> bset (Some buf) (set_flags {BUFFER_DIRTY, BUFFER_VALID}) s;
     brelse buf s1 }"




fun invalidate_loop :: "nat list \<Rightarrow> nat \<Rightarrow> kernel \<Rightarrow> kernel option" where
  "invalidate_loop [] dev s = Some s"
| "invalidate_loop (n # ns) dev s = do {
     b \<leftarrow> bget s (Some n);
     s1 \<leftarrow> (if BUFFER_LOCKED \<notin> b_flags b \<and> b_dev b = dev
            then do {
              s1 \<leftarrow> buffer_wait n s;
              s2 \<leftarrow> remove_from_hash n s1;
              bset (Some n) (clear_flags {BUFFER_VALID, BUFFER_LOCKED}) s2 }
            else Some s);
     invalidate_loop ns dev s1 }"

definition invalidate_buffers :: "nat \<Rightarrow> kernel \<Rightarrow> kernel option" where
  "invalidate_buffers dev s = invalidate_loop [0 ..< length (buffer_table s)] dev s"

text \<open>
  \<^verbatim>\<open>NR_BUF_RECLAIM\<close> is declared in a header that is not among the sources; it is the
  first argument of \<open>reclaim_buffers\<close>. The loop carries \<^verbatim>\<open>reclaimed\<close> and \<^verbatim>\<open>first\<close>; its body
  is a function of its own.
\<close>

definition reclaim_body ::
  "nat \<Rightarrow> nat \<Rightarrow> nat option \<Rightarrow> kernel \<Rightarrow> ((nat \<times> kernel) + (nat \<times> nat option \<times> kernel)) option" where
  \<comment> \<open>one pass through the body of the loop: \<open>Inl\<close> when it leaves the loop with the value
      of \<^verbatim>\<open>reclaimed\<close>, \<open>Inr\<close> when it goes round again with \<^verbatim>\<open>reclaimed\<close> and \<^verbatim>\<open>first\<close>\<close>
  "reclaim_body nr_buf_reclaim reclaimed first s = do {
     (g, s1) \<leftarrow> get_free_buffer s;
     case g of None \<Rightarrow> None
     | Some buf \<Rightarrow> do {
         b \<leftarrow> bget s1 (Some buf);
         s2 \<leftarrow> (if BUFFER_DIRTY \<in> b_flags b then sync_one_buffer buf s1 else Some s1);
         s3 \<leftarrow> bset (Some buf) (set_flags {BUFFER_VALID}) s2;
         if first = Some buf then do { s4 \<leftarrow> brelse buf s3; Some (Inl (reclaimed, s4)) }
         else do {
           let first' = (case first of None \<Rightarrow> Some buf | Some f \<Rightarrow> Some f);
           b3 \<leftarrow> bget s3 (Some buf);
           case b_data b3 of
             None \<Rightarrow> do { s4 \<leftarrow> brelse buf s3; Some (Inr (reclaimed, first', s4)) }
           | Some fr \<Rightarrow> do {
               s4 \<leftarrow> kfree fr s3;
               s5 \<leftarrow> bset (Some buf) (\<lambda>x. x\<lparr>b_data := None\<rparr>) s4;
               s6 \<leftarrow> remove_from_hash buf s5;
               let s7 = s6\<lparr>kstat_buffers := kstat_buffers s6 - int (PAGE_SIZE div 1024)\<rparr>;
               s8 \<leftarrow> brelse buf s7;
               if reclaimed + 1 = nr_buf_reclaim then Some (Inl (reclaimed + 1, s8))
               else Some (Inr (reclaimed + 1, first', s8)) } } } }"

partial_function (option) reclaim_loop ::
  "nat \<Rightarrow> nat \<Rightarrow> nat option \<Rightarrow> kernel \<Rightarrow> (nat \<times> kernel) option" where
  "reclaim_loop nr_buf_reclaim reclaimed first s = do {
     r \<leftarrow> reclaim_body nr_buf_reclaim reclaimed first s;
     case r of
       Inl result \<Rightarrow> Some result
     | Inr (reclaimed', first', s') \<Rightarrow> reclaim_loop nr_buf_reclaim reclaimed' first' s' }"

declare reclaim_loop.simps [code]

definition reclaim_buffers :: "nat \<Rightarrow> kernel \<Rightarrow> (nat \<times> kernel) option" where
  "reclaim_buffers nr_buf_reclaim s = reclaim_loop nr_buf_reclaim 0 None s"

definition zero_buffer :: buffer where
  "zero_buffer = \<lparr>b_dev = 0, b_block = 0, b_size = 0, b_data = None, b_flags = {},
     b_prev_hash = None, b_next_hash = None, b_prev_free = None, b_next_free = None,
     b_prev_dirty = None, b_next_dirty = None\<rparr>"

fun insert_all :: "nat list \<Rightarrow> kernel \<Rightarrow> kernel option" where
  "insert_all [] s = Some s"
| "insert_all (n # ns) s = do { s1 \<leftarrow> insert_on_free_list n s; insert_all ns s1 }"

definition buffer_init :: "nat \<Rightarrow> nat \<Rightarrow> kernel \<Rightarrow> kernel option" where
  \<comment> \<open>\<open>nr_buffers\<close> and \<open>nr_buf_hash\<close> are \<^verbatim>\<open>NR_BUFFERS\<close> and \<^verbatim>\<open>NR_BUF_HASH\<close>\<close>
  "buffer_init nr_buffers nr_buf_hash s =
     insert_all [0 ..< nr_buffers]
       (s\<lparr>buffer_table := replicate nr_buffers zero_buffer,
          buffer_hash_table := replicate nr_buf_hash None\<rparr>)"

section \<open>mm/page.c: initialisation\<close>

definition zero_page :: page where
  "zero_page = \<lparr>p_page = 0, p_count = 0, p_flags = {}, p_inode = 0, p_offset = 0, p_dev = 0,
     p_data = None, p_prev_hash = None, p_next_hash = None,
     p_prev_free = None, p_next_free = None\<rparr>"

text \<open>
  \<open>reserved n\<close> says that frame \<open>n\<close> lies in the kernel image or outside the firmware
  memory map (\<^verbatim>\<open>KERNEL_ENTRY_ADDR\<close>, \<^verbatim>\<open>_last_data_addr\<close> and \<^verbatim>\<open>addr_in_bios_map\<close> are not
  among the sources). The counters of reserved pages are not modelled.
\<close>

fun page_init_loop :: "nat list \<Rightarrow> (nat \<Rightarrow> bool) \<Rightarrow> kernel \<Rightarrow> kernel option" where
  "page_init_loop [] reserved s = Some s"
| "page_init_loop (n # ns) reserved s = do {
     s1 \<leftarrow> pset (Some n) (\<lambda>x. x\<lparr>p_page := n\<rparr>) s;
     s2 \<leftarrow> (if reserved n then pset (Some n) (\<lambda>x. x\<lparr>p_flags := {PAGE_RESERVED}\<rparr>) s1
            else do {
              s2 \<leftarrow> pset (Some n) (\<lambda>x. x\<lparr>p_data := Some n\<rparr>) s1;
              pg_insert_on_free_list n s2 });
     page_init_loop ns reserved s2 }"

definition page_init :: "nat \<Rightarrow> nat \<Rightarrow> (nat \<Rightarrow> bool) \<Rightarrow> kernel \<Rightarrow> kernel option" where
  \<comment> \<open>\<open>nr_page_hash\<close> is \<^verbatim>\<open>NR_PAGE_HASH\<close>; the table holds \<open>pages\<close> entries\<close>
  "page_init pages nr_page_hash reserved s =
     page_init_loop [0 ..< pages] reserved
       (s\<lparr>page_table := replicate pages zero_page,
          page_hash_table := replicate nr_page_hash None\<rparr>)"

section \<open>mm/page.c: page fill, write-through and file read\<close>

text \<open>
  \<^verbatim>\<open>memcpy_b(dst + off, src, n)\<close> on a frame of the store. A frame is a function of
  every offset: an access beyond \<^verbatim>\<open>PAGE_SIZE\<close> reads or writes that function, not the
  memory next to the frame.
\<close>

definition memcpy_b :: "frame \<Rightarrow> int \<Rightarrow> frame \<Rightarrow> int \<Rightarrow> frame" where
  "memcpy_b dst off src n =
     (\<lambda>k. if off \<le> int k \<and> int k < off + n then src (nat (int k - off)) else dst k)"


definition ptr_add :: "frame \<Rightarrow> int \<Rightarrow> frame" where
  \<comment> \<open>\<^verbatim>\<open>buffer + n\<close> for a caller's buffer\<close>
  "ptr_add buffer n = (\<lambda>k. buffer (nat (int k + n)))"




definition update_page_cache :: "inode \<Rightarrow> int \<Rightarrow> frame \<Rightarrow> int \<Rightarrow> kernel \<Rightarrow> kernel option" where
  "update_page_cache i offset buf count s =
     (let poffset = c_rem offset (int PAGE_SIZE);
          offset' = PAGE_MASK_off offset;
          bytes = s32 (int PAGE_SIZE - poffset)
      in if count \<noteq> 0 then do {
           let bytes = min bytes count;
           (found, s1) \<leftarrow> search_page_hash i offset' s;
           case found of None \<Rightarrow> Some s1
           | Some pg \<Rightarrow> do {
               s2 \<leftarrow> page_lock pg s1;
               p \<leftarrow> pget s2 (Some pg);
               pfr \<leftarrow> p_data p;
               let s3 = s2\<lparr>mem := (mem s2)(pfr := memcpy_b (mem s2 pfr) poffset buf bytes)\<rparr>;
               s4 \<leftarrow> page_unlock pg s3;
               p4 \<leftarrow> pget s4 (Some pg);
               release_page (int (p_page p4)) s4 } }
         else Some s)"




section \<open>fs/minix/file.c\<close>

text \<open>
  \<^verbatim>\<open>minix_file_write\<close> returns its value, the descriptor, the inode (its size grows with
  the file; the time stamps and the dirty mark of the inode are not modelled) and the
  kernel state. A block size of zero makes \<^verbatim>\<open>fd_table->offset % blksize\<close> a division by
  zero. \<^verbatim>\<open>count\<close>, \<^verbatim>\<open>boffset\<close> and \<^verbatim>\<open>bytes\<close> are unsigned, the offset of the descriptor and
  \<^verbatim>\<open>total_written\<close> are signed; the loop test compares unsigned values.
\<close>

partial_function (option) minix_write_loop ::
  "inode \<Rightarrow> fd \<Rightarrow> frame \<Rightarrow> int \<Rightarrow> int \<Rightarrow> kernel \<Rightarrow> (retval option \<times> int \<times> fd \<times> kernel) option" where
  "minix_write_loop i fd_table buffer count total_written s =
     (if u32 total_written < count then
        (let blksize = i_blksize i in
         if blksize = 0 then None
         else
           let boffset = u32 (c_rem (fd_offset fd_table) blksize);
               block = i_bmap i (fd_offset fd_table) True
           in if block < 0 then Some (Some (Val block), total_written, fd_table, s)
              else do {
                let bytes = min (u32 (blksize - boffset)) (u32 (count - total_written));
                (g, s1) \<leftarrow> bread (i_dev i) block blksize s;
                case g of None \<Rightarrow> Some (Some (Neg EIO), total_written, fd_table, s1)
                | Some buf \<Rightarrow> do {
                    b \<leftarrow> bget s1 (Some buf);
                    bfr \<leftarrow> b_data b;
                    let s2 = s1\<lparr>mem := (mem s1)(bfr :=
                               memcpy_b (mem s1 bfr) boffset (ptr_add buffer total_written) bytes)\<rparr>;
                    s3 \<leftarrow> update_page_cache i (fd_offset fd_table) (ptr_add buffer total_written)
                           (s32 bytes) s2;
                    s4 \<leftarrow> bwrite buf s3;
                    minix_write_loop i (fd_table\<lparr>fd_offset := s32 (fd_offset fd_table + bytes)\<rparr>) buffer
                      count (s32 (total_written + bytes)) s4 } })
      else Some (None, total_written, fd_table, s))"

declare minix_write_loop.simps [code]

definition minix_file_write ::
  "inode \<Rightarrow> fd \<Rightarrow> frame \<Rightarrow> int \<Rightarrow> kernel \<Rightarrow> (retval \<times> fd \<times> inode \<times> kernel) option" where
  "minix_file_write i fd_table buffer count s =
     (if i_locked i then None
      else do {
        let fd1 = (if O_APPEND \<in> fd_flags fd_table
                   then fd_table\<lparr>fd_offset := i_size i\<rparr> else fd_table);
        (early, total_written, fd2, s1) \<leftarrow> minix_write_loop i fd1 buffer (u32 count) 0 s;
        case early of
          Some r \<Rightarrow> Some (r, fd2, i, s1)
        | None \<Rightarrow>
            Some (Val total_written, fd2,
                  (if fd_offset fd2 > i_size i then i\<lparr>i_size := fd_offset fd2\<rparr> else i), s1) })"

section \<open>List membership and test fixtures\<close>

text \<open>
  The nodes met from a start pointer along a link field. A table of \<open>n\<close> entries has at
  most \<open>n\<close> distinct nodes, so \<open>n\<close> steps meet every node that can be reached, also on a
  circular or cyclic list.
\<close>

fun follow :: "(nat \<Rightarrow> nat option) \<Rightarrow> nat \<Rightarrow> nat option \<Rightarrow> nat list" where
  "follow nxt 0 p = []"
| "follow nxt (Suc n) p = (case p of None \<Rightarrow> [] | Some i \<Rightarrow> i # follow nxt n (nxt i))"

definition blink :: "(buffer \<Rightarrow> nat option) \<Rightarrow> kernel \<Rightarrow> nat \<Rightarrow> nat option" where
  "blink field s i = (case bget s (Some i) of None \<Rightarrow> None | Some b \<Rightarrow> field b)"

definition free_list_nodes :: "kernel \<Rightarrow> nat list" where
  "free_list_nodes s = follow (blink b_next_free s) (length (buffer_table s)) (buffer_head s)"

definition dirty_list_nodes :: "kernel \<Rightarrow> nat list" where
  "dirty_list_nodes s = follow (blink b_next_dirty s) (length (buffer_table s)) (buffer_dirty_head s)"

definition hash_nodes :: "kernel \<Rightarrow> nat list" where
  "hash_nodes s =
     concat (map (follow (blink b_next_hash s) (length (buffer_table s))) (buffer_hash_table s))"

definition on_free_list :: "kernel \<Rightarrow> nat \<Rightarrow> bool" where
  "on_free_list s i = (i \<in> set (free_list_nodes s))"

definition on_dirty_list :: "kernel \<Rightarrow> nat \<Rightarrow> bool" where
  "on_dirty_list s i = (i \<in> set (dirty_list_nodes s))"

definition in_hash :: "kernel \<Rightarrow> nat \<Rightarrow> bool" where
  "in_hash s i = (i \<in> set (hash_nodes s))"

definition free_tail :: "kernel \<Rightarrow> nat option" where
  \<comment> \<open>\<^verbatim>\<open>buffer_head->prev_free\<close>\<close>
  "free_tail s = (case buffer_head s of None \<Rightarrow> None | Some h \<Rightarrow> blink b_prev_free s h)"

definition has_flag :: "kernel \<Rightarrow> nat \<Rightarrow> bflag \<Rightarrow> bool" where
  "has_flag s i f = (case bget s (Some i) of None \<Rightarrow> False | Some b \<Rightarrow> f \<in> b_flags b)"

definition data_of :: "kernel \<Rightarrow> nat \<Rightarrow> nat option" where
  "data_of s i = (case bget s (Some i) of None \<Rightarrow> None | Some b \<Rightarrow> b_data b)"

definition kernel0 :: kernel where
  "kernel0 = \<lparr>buffer_table = [], buffer_head = None, buffer_dirty_head = None,
     buffer_hash_table = [], page_table = [], page_head = None, page_hash_table = [],
     kstat_buffers = 0, kstat_dirty = 0, kstat_cached = 0, kstat_free_pages = 0,
     mem = (\<lambda>_ _. 0), devices = (\<lambda>_. None), disk = (\<lambda>_ _ _. 0), io_log = []\<rparr>"

definition good_dev :: device where
  "good_dev = \<lparr>read_block = Some (\<lambda>_. 1024), write_block = Some (\<lambda>_. 1024)\<rparr>"

definition broken_dev :: device where
  \<comment> \<open>reads succeed, every write fails\<close>
  "broken_dev = \<lparr>read_block = Some (\<lambda>_. 1024), write_block = Some (\<lambda>_. - 5)\<rparr>"

definition boot :: "nat \<Rightarrow> nat \<Rightarrow> nat \<Rightarrow> kernel option" where
  \<comment> \<open>fresh caches: \<open>nb\<close> buffers, \<open>nh\<close> buckets, \<open>np\<close> pages; device 1 works, device 2 cannot write\<close>
  "boot nb nh np = do {
     s \<leftarrow> page_init np 4 (\<lambda>_. False)
           (kernel0\<lparr>devices := (\<lambda>d. if d = 1 then Some good_dev
                                     else if d = 2 then Some broken_dev else None)\<rparr>);
     buffer_init nb nh s }"

definition then_bread :: "nat \<Rightarrow> int \<Rightarrow> int \<Rightarrow> kernel option \<Rightarrow> (nat option \<times> kernel) option" where
  "then_bread dev block sz r = r \<bind> bread dev block sz"

definition then_brelse :: "(nat option \<times> kernel) option \<Rightarrow> kernel option" where
  \<comment> \<open>the caller releases the buffer it was handed\<close>
  "then_brelse r = do { (b, s) \<leftarrow> r; buf \<leftarrow> b; brelse buf s }"

definition then_bwrite :: "(nat option \<times> kernel) option \<Rightarrow> kernel option" where
  "then_bwrite r = do { (b, s) \<leftarrow> r; buf \<leftarrow> b; bwrite buf s }"

definition handed :: "(nat option \<times> kernel) option \<Rightarrow> nat option" where
  "handed r = r \<bind> fst"

definition after :: "(nat option \<times> kernel) option \<Rightarrow> kernel option" where
  "after r = map_option snd r"

text \<open>What a test sees of the buffer cache: every entry with its list memberships.\<close>

record entry_view =
  ev_key :: "nat \<times> int \<times> int"
  ev_data :: "nat option"
  ev_flags :: "bflag set"
  ev_free :: bool
  ev_dirty :: bool
  ev_hash :: bool

record cache_view =
  cv_entries :: "entry_view list"
  cv_free_tail :: "nat option"
  cv_dirty_head :: "nat option"
  cv_buffers :: int
  cv_dirty :: int
  cv_log :: "io_event list"

definition entry_of :: "kernel \<Rightarrow> nat \<Rightarrow> entry_view" where
  "entry_of s i = (let b = buffer_table s ! i in
     \<lparr>ev_key = (b_dev b, b_block b, b_size b), ev_data = b_data b, ev_flags = b_flags b,
      ev_free = on_free_list s i, ev_dirty = on_dirty_list s i, ev_hash = in_hash s i\<rparr>)"

definition snapshot :: "kernel \<Rightarrow> cache_view" where
  "snapshot s = \<lparr>cv_entries = map (entry_of s) [0 ..< length (buffer_table s)],
     cv_free_tail = free_tail s, cv_dirty_head = buffer_dirty_head s,
     cv_buffers = kstat_buffers s, cv_dirty = kstat_dirty s, cv_log = io_log s\<rparr>"

definition view :: "kernel option \<Rightarrow> cache_view option" where
  "view r = map_option snapshot r"

definition entry_at :: "nat \<Rightarrow> cache_view \<Rightarrow> entry_view" where
  "entry_at i v = cv_entries v ! i"

definition cold_read :: "(nat option \<times> kernel) option" where
  \<comment> \<open>fresh caches, then \<^verbatim>\<open>bread(1, 7, 1024)\<close>\<close>
  "cold_read = then_bread 1 7 1024 (boot 4 3 4)"

definition rewrite_twice :: "kernel option" where
  \<comment> \<open>read block 7, mark it dirty, read it again, mark it dirty again\<close>
  "rewrite_twice =
     then_bwrite (then_bread 1 7 1024 (then_bwrite (then_bread 1 7 1024 (boot 3 2 4))))"

definition evict_rewritten :: "(nat option \<times> kernel) option" where
  \<comment> \<open>three more blocks are read; the third read reuses the entry of block 7\<close>
  "evict_rewritten = then_bread 1 10 1024 (then_brelse (then_bread 1 9 1024
       (then_brelse (then_bread 1 8 1024 rewrite_twice))))"




section \<open>Views for frame reasoning\<close>

text \<open>
  \<open>fld g s i\<close> is field \<open>g\<close> of entry \<open>i\<close>, \<open>None\<close> outside the table. A view of the state
  blanks the links of one list, so that two states with the same view differ in that
  list only.
\<close>

definition fld :: "(buffer \<Rightarrow> 'a) \<Rightarrow> kernel \<Rightarrow> nat \<Rightarrow> 'a option" where
  "fld g s i = map_option g (bget s (Some i))"

definition V_free :: "kernel \<Rightarrow> kernel" where
  "V_free s = s\<lparr>buffer_table := map (\<lambda>b. b\<lparr>b_prev_free := None, b_next_free := None\<rparr>) (buffer_table s),
                buffer_head := None\<rparr>"

definition V_hash :: "kernel \<Rightarrow> kernel" where
  "V_hash s = s\<lparr>buffer_table := map (\<lambda>b. b\<lparr>b_prev_hash := None, b_next_hash := None\<rparr>) (buffer_table s),
                buffer_hash_table := map (\<lambda>_. None) (buffer_hash_table s)\<rparr>"

definition V_dirty :: "kernel \<Rightarrow> kernel" where
  "V_dirty s = s\<lparr>buffer_table := map (\<lambda>b. b\<lparr>b_prev_dirty := None, b_next_dirty := None\<rparr>) (buffer_table s),
                 buffer_dirty_head := None, kstat_dirty := 0\<rparr>"

definition V_pages :: "kernel \<Rightarrow> kernel" where
  "V_pages s = s\<lparr>page_table := [], page_head := None, page_hash_table := [],
                 kstat_cached := 0, kstat_free_pages := 0\<rparr>"

definition write_fails :: "kernel \<Rightarrow> nat \<Rightarrow> int \<Rightarrow> bool" where
  "write_fails s d blk = (case devices s d of None \<Rightarrow> True
     | Some dv \<Rightarrow> (case write_block dv of None \<Rightarrow> True | Some wr \<Rightarrow> wr blk < 0))"





text \<open>
  A singly linked segment from pointer \<open>p\<close> through the nodes \<open>xs\<close> to pointer \<open>q\<close>, and
  the back links of a doubly linked list whose first node points back to \<open>q\<close>.
\<close>

fun seg :: "(nat \<Rightarrow> nat option) \<Rightarrow> nat option \<Rightarrow> nat list \<Rightarrow> nat option \<Rightarrow> bool" where
  "seg nxt p [] q = (p = q)"
| "seg nxt p (x # xs) q = (p = Some x \<and> seg nxt (nxt x) xs q)"

fun prevs :: "(nat \<Rightarrow> nat option) \<Rightarrow> nat option \<Rightarrow> nat list \<Rightarrow> bool" where
  "prevs prv q [] = True"
| "prevs prv q (x # xs) = (prv x = q \<and> prevs prv (Some x) xs)"

definition chain_of :: "kernel \<Rightarrow> nat \<Rightarrow> nat list" where
  "chain_of s k = follow (blink b_next_hash s) (length (buffer_table s)) (buffer_hash_table s ! k)"

definition chain :: "kernel \<Rightarrow> nat \<Rightarrow> nat list \<Rightarrow> bool" where
  "chain s k xs = (seg (blink b_next_hash s) (buffer_hash_table s ! k) xs None
     \<and> prevs (blink b_prev_hash s) None xs \<and> distinct xs
     \<and> list_all (\<lambda>x. x < length (buffer_table s)
           \<and> BUFFER_HASH (b_dev (buffer_table s ! x)) (b_block (buffer_table s ! x)) s = k) xs)"

definition hash_ok :: "kernel \<Rightarrow> bool" where
  "hash_ok s = list_all (\<lambda>k. chain s k (chain_of s k)) [0 ..< length (buffer_hash_table s)]"

definition bucket_of :: "kernel \<Rightarrow> nat \<Rightarrow> nat" where
  "bucket_of s x = BUFFER_HASH (b_dev (buffer_table s ! x)) (b_block (buffer_table s ! x)) s"

definition flag_on :: "kernel \<Rightarrow> nat \<Rightarrow> bflag \<Rightarrow> bool" where
  "flag_on s i f = (\<exists>F. fld b_flags s i = Some F \<and> f \<in> F)"

definition hframe :: "kernel \<Rightarrow> kernel \<Rightarrow> bool" where
  "hframe s s' = (fld b_next_hash s' = fld b_next_hash s \<and> fld b_prev_hash s' = fld b_prev_hash s
     \<and> buffer_hash_table s' = buffer_hash_table s
     \<and> length (buffer_table s') = length (buffer_table s)
     \<and> fld b_dev s' = fld b_dev s \<and> fld b_block s' = fld b_block s \<and> fld b_size s' = fld b_size s)"

definition inval_rel :: "kernel \<Rightarrow> kernel \<Rightarrow> bool" where
  "inval_rel s s' = (hash_ok s' \<and> length (buffer_table s') = length (buffer_table s)
     \<and> length (buffer_hash_table s') = length (buffer_hash_table s)
     \<and> fld b_dev s' = fld b_dev s \<and> fld b_block s' = fld b_block s \<and> fld b_size s' = fld b_size s
     \<and> io_log s' = io_log s \<and> devices s' = devices s
     \<and> (\<forall>x. in_hash s' x \<longrightarrow> in_hash s x)
     \<and> (\<forall>x. flag_on s' x BUFFER_LOCKED = flag_on s x BUFFER_LOCKED)
     \<and> (\<forall>x f. flag_on s' x f \<longrightarrow> flag_on s x f))"

definition write_or_nothing :: "io_event list \<Rightarrow> bool" where
  "write_or_nothing w = (w = [] \<or> (\<exists>a b c d. w = [WriteBlock a b c d]))"

definition can_read :: "kernel \<Rightarrow> nat \<Rightarrow> bool" where
  "can_read s d = (case devices s d of None \<Rightarrow> False | Some dv \<Rightarrow> read_block dv \<noteq> None)"

definition then_invalidate :: "nat \<Rightarrow> kernel option \<Rightarrow> kernel option" where
  "then_invalidate dev r = r \<bind> invalidate_buffers dev"

definition cached7 :: "kernel option" where
  "cached7 = then_brelse (then_bread 1 7 1024 (boot 3 2 4))"

definition cached7_no_memory :: "kernel option" where
  "cached7_no_memory = then_brelse (then_bread 1 7 1024 (boot 3 2 1))"

definition reread_obs :: "nat \<Rightarrow> int \<Rightarrow> int \<Rightarrow> nat \<Rightarrow> kernel \<Rightarrow>
    bool \<times> nat option option \<times> bool \<times> bool \<times> bool \<times> bool" where
  "reread_obs d b sz e s =
     (hash_ok s, search_buffer_hash d b sz s, has_flag s e BUFFER_LOCKED, can_read s d,
      \<not> Option.is_none (invalidate_buffers d s),
      \<not> Option.is_none (bread d b sz (the (invalidate_buffers d s))))"

definition freed :: "kernel \<Rightarrow> kernel \<Rightarrow> nat set" where
  \<comment> \<open>the entries that had a frame in \<open>s\<close> and have none in \<open>s'\<close>\<close>
  "freed s s' = set (filter (\<lambda>i. data_of s i \<noteq> None \<and> data_of s' i = None)
                      [0 ..< length (buffer_table s)])"

definition reclaim_rel :: "kernel \<Rightarrow> kernel \<Rightarrow> nat \<Rightarrow> bool" where
  "reclaim_rel s s' n = (hash_ok s' \<and> length (buffer_table s') = length (buffer_table s)
     \<and> (\<forall>i. has_flag s' i BUFFER_LOCKED = has_flag s i BUFFER_LOCKED)
     \<and> (\<forall>i. data_of s' i = data_of s i
            \<or> (data_of s i \<noteq> None \<and> data_of s' i = None \<and> \<not> has_flag s i BUFFER_LOCKED
                \<and> \<not> in_hash s' i))
     \<and> (\<forall>i. in_hash s' i \<longrightarrow> in_hash s i)
     \<and> card (freed s s') = n)"

definition three_clean :: "kernel option" where
  "three_clean = then_brelse (then_bread 1 9 1024 (then_brelse (then_bread 1 8 1024
      (then_brelse (then_bread 1 7 1024 (boot 4 2 8))))))"

definition reclaim_obs :: "nat \<Rightarrow> kernel \<Rightarrow> bool \<times> bool \<times> nat option \<times> nat list" where
  \<comment> \<open>what a call of \<^verbatim>\<open>reclaim_buffers\<close> does: whether it returns, its count, the entries it freed\<close>
  "reclaim_obs R s = (hash_ok s, \<not> Option.is_none (reclaim_buffers R s),
       map_option fst (reclaim_buffers R s),
       sorted_list_of_set (freed s (snd (the (reclaim_buffers R s)))))"

definition ptr_ok :: "nat \<Rightarrow> nat option \<Rightarrow> bool" where
  \<comment> \<open>\<^verbatim>\<open>NULL\<close> or a pointer into a table of \<open>n\<close> entries\<close>
  "ptr_ok n p = (case p of None \<Rightarrow> True | Some i \<Rightarrow> i < n)"

definition ref_ok :: "nat \<Rightarrow> nat option \<Rightarrow> bool" where
  \<comment> \<open>a pointer into a table of \<open>n\<close> entries\<close>
  "ref_ok n p = (case p of None \<Rightarrow> False | Some i \<Rightarrow> i < n)"

definition free_links_ok :: "kernel \<Rightarrow> bool" where
  "free_links_ok s = (ptr_ok (length (buffer_table s)) (buffer_head s)
     \<and> list_all (\<lambda>b. ref_ok (length (buffer_table s)) (b_prev_free b)
                   \<and> ref_ok (length (buffer_table s)) (b_next_free b)) (buffer_table s))"

definition dirty_links_ok :: "kernel \<Rightarrow> bool" where
  "dirty_links_ok s = (ptr_ok (length (buffer_table s)) (buffer_dirty_head s)
     \<and> list_all (\<lambda>b. ptr_ok (length (buffer_table s)) (b_prev_dirty b)
                   \<and> ptr_ok (length (buffer_table s)) (b_next_dirty b)) (buffer_table s))"

definition plink :: "(page \<Rightarrow> nat option) \<Rightarrow> kernel \<Rightarrow> nat \<Rightarrow> nat option" where
  "plink field s i = (case pget s (Some i) of None \<Rightarrow> None | Some p \<Rightarrow> field p)"

definition page_chain_ok :: "kernel \<Rightarrow> page \<Rightarrow> bool" where
  \<comment> \<open>the hash chain of the page ends, inside the table, and the hash links of the page
      point into the table\<close>
  "page_chain_ok s p = (page_hash_table s \<noteq> []
     \<and> ptr_ok (length (page_table s)) (p_prev_hash p) \<and> ptr_ok (length (page_table s)) (p_next_hash p)
     \<and> (let h = page_hash_table s ! PAGE_HASH (p_inode p) (p_offset p) s;
             xs = follow (plink p_next_hash s) (length (page_table s)) h
         in seg (plink p_next_hash s) h xs None \<and> list_all (\<lambda>x. x < length (page_table s)) xs))"

definition page_head_ok :: "kernel \<Rightarrow> bool" where
  \<comment> \<open>\<^verbatim>\<open>get_free_page\<close> can take the head of the free list of pages\<close>
  "page_head_ok s = (kstat_free_pages s = 0 \<or>
     (case pget s (page_head s) of None \<Rightarrow> False
      | Some p \<Rightarrow> ref_ok (length (page_table s)) (p_prev_free p)
          \<and> ref_ok (length (page_table s)) (p_next_free p)
          \<and> (p_inode p = 0 \<or> page_chain_ok s p)))"

definition pframe :: "kernel \<Rightarrow> kernel \<Rightarrow> bool" where
  \<comment> \<open>the two states have the same page hash\<close>
  "pframe s s' = (length (page_table s') = length (page_table s)
     \<and> page_hash_table s' = page_hash_table s
     \<and> map p_next_hash (page_table s') = map p_next_hash (page_table s)
     \<and> map p_prev_hash (page_table s') = map p_prev_hash (page_table s)
     \<and> map p_inode (page_table s') = map p_inode (page_table s)
     \<and> map p_offset (page_table s') = map p_offset (page_table s))"

definition lists_kept :: "kernel \<Rightarrow> kernel \<Rightarrow> bool" where
  \<comment> \<open>the free list, the dirty list, the frames and the page cache are untouched\<close>
  "lists_kept s s' = (length (buffer_table s') = length (buffer_table s)
     \<and> fld b_prev_free s' = fld b_prev_free s \<and> fld b_next_free s' = fld b_next_free s
     \<and> buffer_head s' = buffer_head s
     \<and> fld b_prev_dirty s' = fld b_prev_dirty s \<and> fld b_next_dirty s' = fld b_next_dirty s
     \<and> buffer_dirty_head s' = buffer_dirty_head s
     \<and> fld b_data s' = fld b_data s
     \<and> (\<forall>x. flag_on s' x BUFFER_DIRTY = flag_on s x BUFFER_DIRTY)
     \<and> page_table s' = page_table s \<and> page_head s' = page_head s
     \<and> page_hash_table s' = page_hash_table s \<and> kstat_free_pages s' = kstat_free_pages s
     \<and> mem s' = mem s \<and> disk s' = disk s)"

definition block_unlocked :: "nat \<Rightarrow> int \<Rightarrow> int \<Rightarrow> kernel \<Rightarrow> bool" where
  \<comment> \<open>no entry that holds the block is \<^verbatim>\<open>LOCKED\<close>\<close>
  "block_unlocked d b sz s = list_all (\<lambda>x. b_dev x = d \<and> b_block x = b \<and> b_size x = sz
       \<longrightarrow> BUFFER_LOCKED \<notin> b_flags x) (buffer_table s)"

definition reread_ready :: "nat \<Rightarrow> int \<Rightarrow> int \<Rightarrow> nat \<Rightarrow> kernel \<Rightarrow> bool" where
  "reread_ready d b sz v s = (hash_ok s \<and> free_links_ok s \<and> dirty_links_ok s \<and> page_head_ok s
     \<and> block_unlocked d b sz s \<and> can_read s d \<and> buffer_head s = Some v
     \<and> \<not> has_flag s v BUFFER_LOCKED \<and> (has_flag s v BUFFER_DIRTY \<longrightarrow> data_of s v \<noteq> None))"

section \<open>Frame reasoning\<close>

lemma map_upd_same: "y = g (xs ! i) \<Longrightarrow> (map g xs)[i := y] = map g xs"
  by (cases "i < length xs") (simp_all add: list_eq_iff_nth_eq nth_list_update)

lemma map_upd_const: "(map (\<lambda>_. c) xs)[i := c] = map (\<lambda>_. c) xs"
  by (cases "i < length xs") (simp_all add: list_eq_iff_nth_eq nth_list_update)

lemma bset_Some_iff:
  "bset p f s = Some s' \<longleftrightarrow> (\<exists>i. p = Some i \<and> i < length (buffer_table s) \<and> s' = bupd i f s)"
  by (auto simp: bset_def split: option.splits)

lemma bget_Some_iff:
  "bget s p = Some b \<longleftrightarrow> (\<exists>i. p = Some i \<and> i < length (buffer_table s) \<and> b = buffer_table s ! i)"
  by (auto simp: bget_def split: option.splits)

lemma bupd_fields [simp]:
  "length (buffer_table (bupd i f s)) = length (buffer_table s)"
  "buffer_head (bupd i f s) = buffer_head s"
  "buffer_dirty_head (bupd i f s) = buffer_dirty_head s"
  "buffer_hash_table (bupd i f s) = buffer_hash_table s"
  "page_table (bupd i f s) = page_table s"
  "page_head (bupd i f s) = page_head s"
  "page_hash_table (bupd i f s) = page_hash_table s"
  "kstat_buffers (bupd i f s) = kstat_buffers s"
  "kstat_dirty (bupd i f s) = kstat_dirty s"
  "kstat_cached (bupd i f s) = kstat_cached s"
  "kstat_free_pages (bupd i f s) = kstat_free_pages s"
  "mem (bupd i f s) = mem s"
  "devices (bupd i f s) = devices s"
  "disk (bupd i f s) = disk s"
  "io_log (bupd i f s) = io_log s"
  by (simp_all add: bupd_def)

lemma bget_bupd:
  "bget (bupd i f s) (Some j) = (if j = i then map_option f (bget s (Some i)) else bget s (Some j))"
  by (simp add: bget_def bupd_def)

lemma fld_bupd:
  "fld g (bupd i f s) j = (if j = i then map_option (\<lambda>b. g (f b)) (bget s (Some i)) else fld g s j)"
  by (simp add: fld_def bget_bupd option.map_comp comp_def)

lemma fld_bupd_same: "(\<And>b. g (f b) = g b) \<Longrightarrow> fld g (bupd i f s) = fld g s"
  by (rule ext) (simp add: fld_def bget_bupd option.map_comp comp_def)

lemma fld_bupd_flags [simp]:
  "fld b_flags (bupd i (set_flags F) s) = (fld b_flags s)(i := map_option (\<lambda>X. X \<union> F) (fld b_flags s i))"
  "fld b_flags (bupd i (clear_flags F) s) = (fld b_flags s)(i := map_option (\<lambda>X. X - F) (fld b_flags s i))"
  by (rule ext, simp add: fld_def bget_bupd set_flags_def clear_flags_def option.map_comp comp_def)+

lemma flags_upd_other [simp]:
  "b_dev (set_flags F b) = b_dev b" "b_block (set_flags F b) = b_block b"
  "b_size (set_flags F b) = b_size b" "b_data (set_flags F b) = b_data b"
  "b_prev_hash (set_flags F b) = b_prev_hash b" "b_next_hash (set_flags F b) = b_next_hash b"
  "b_prev_free (set_flags F b) = b_prev_free b" "b_next_free (set_flags F b) = b_next_free b"
  "b_prev_dirty (set_flags F b) = b_prev_dirty b" "b_next_dirty (set_flags F b) = b_next_dirty b"
  "b_flags (set_flags F b) = b_flags b \<union> F"
  "b_dev (clear_flags F b) = b_dev b" "b_block (clear_flags F b) = b_block b"
  "b_size (clear_flags F b) = b_size b" "b_data (clear_flags F b) = b_data b"
  "b_prev_hash (clear_flags F b) = b_prev_hash b" "b_next_hash (clear_flags F b) = b_next_hash b"
  "b_prev_free (clear_flags F b) = b_prev_free b" "b_next_free (clear_flags F b) = b_next_free b"
  "b_prev_dirty (clear_flags F b) = b_prev_dirty b" "b_next_dirty (clear_flags F b) = b_next_dirty b"
  "b_flags (clear_flags F b) = b_flags b - F"
  by (simp_all add: set_flags_def clear_flags_def)

lemma bgetD:
  "bget s (Some i) = Some b \<Longrightarrow> i < length (buffer_table s)
     \<and> fld b_dev s i = Some (b_dev b) \<and> fld b_block s i = Some (b_block b)
     \<and> fld b_size s i = Some (b_size b) \<and> fld b_data s i = Some (b_data b)
     \<and> fld b_flags s i = Some (b_flags b)
     \<and> fld b_prev_hash s i = Some (b_prev_hash b) \<and> fld b_next_hash s i = Some (b_next_hash b)
     \<and> fld b_prev_free s i = Some (b_prev_free b) \<and> fld b_next_free s i = Some (b_next_free b)
     \<and> fld b_prev_dirty s i = Some (b_prev_dirty b) \<and> fld b_next_dirty s i = Some (b_next_dirty b)"
  by (auto simp: fld_def bget_def split: if_splits)

lemma map_eq_fld:
  assumes "map f (buffer_table s') = map f (buffer_table s)" and "\<And>b. g (f b) = g b"
  shows "fld g s' = fld g s"
proof
  fix i
  from assms(1) have len: "length (buffer_table s') = length (buffer_table s)"
    by (metis length_map)
  show "fld g s' i = fld g s i"
  proof (cases "i < length (buffer_table s)")
    case True
    with assms(1) len have "f (buffer_table s' ! i) = f (buffer_table s ! i)"
      by (metis nth_map)
    then show ?thesis using assms(2) True len by (simp add: fld_def bget_def) metis
  next
    case False
    then show ?thesis using len by (simp add: fld_def bget_def)
  qed
qed

lemma map_eq_len:
  "map f (buffer_table s') = map f (buffer_table s) \<Longrightarrow> length (buffer_table s') = length (buffer_table s)"
  by (metis length_map)


subsection \<open>Free-list operations change free links only\<close>

lemma bset_V_free:
  assumes "bset p f s = Some s'"
    and "\<And>b. (f b)\<lparr>b_prev_free := None, b_next_free := None\<rparr> = b\<lparr>b_prev_free := None, b_next_free := None\<rparr>"
  shows "V_free s' = V_free s"
  using assms
  by (auto simp: bset_def bupd_def V_free_def map_update map_upd_same split: option.splits if_splits)

lemma bset_free_links:
  "bset p (b_next_free_update g) s = Some s' \<Longrightarrow> V_free s' = V_free s"
  "bset p (b_prev_free_update g) s = Some s' \<Longrightarrow> V_free s' = V_free s"
  "bset p (\<lambda>x. x\<lparr>b_prev_free := a, b_next_free := b\<rparr>) s = Some s' \<Longrightarrow> V_free s' = V_free s"
  by (erule bset_V_free, simp)+

lemma V_free_head [simp]: "V_free (s\<lparr>buffer_head := h\<rparr>) = V_free s"
  by (simp add: V_free_def)

lemma insert_on_free_list_V:
  "insert_on_free_list buf s = Some s' \<Longrightarrow> V_free s' = V_free s"
  unfolding insert_on_free_list_def
  by (auto simp: bind_eq_Some_conv split: option.splits if_splits dest!: bset_free_links)

lemma remove_from_free_list_V:
  "remove_from_free_list buf s = Some s' \<Longrightarrow> V_free s' = V_free s"
  unfolding remove_from_free_list_def
  by (auto simp: bind_eq_Some_conv Let_def split: option.splits if_splits dest!: bset_free_links)

subsection \<open>Hash operations change hash links only\<close>

lemma bset_V_hash:
  assumes "bset p f s = Some s'"
    and "\<And>b. (f b)\<lparr>b_prev_hash := None, b_next_hash := None\<rparr> = b\<lparr>b_prev_hash := None, b_next_hash := None\<rparr>"
  shows "V_hash s' = V_hash s"
  using assms
  by (auto simp: bset_def bupd_def V_hash_def map_update map_upd_same split: option.splits if_splits)

lemma bset_hash_links:
  "bset p (b_next_hash_update g) s = Some s' \<Longrightarrow> V_hash s' = V_hash s"
  "bset p (b_prev_hash_update g) s = Some s' \<Longrightarrow> V_hash s' = V_hash s"
  "bset p (\<lambda>x. x\<lparr>b_prev_hash := a, b_next_hash := b\<rparr>) s = Some s' \<Longrightarrow> V_hash s' = V_hash s"
  by (erule bset_V_hash, simp)+

lemma V_hash_slot [simp]:
  "V_hash (s\<lparr>buffer_hash_table := (buffer_hash_table s)[i := h]\<rparr>) = V_hash s"
  by (simp add: V_hash_def map_update map_upd_const)

lemma insert_to_hash_V:
  "insert_to_hash buf s = Some s' \<Longrightarrow> V_hash s' = V_hash s"
  unfolding insert_to_hash_def
  by (auto simp: bind_eq_Some_conv Let_def split: option.splits if_splits dest!: bset_hash_links)

lemma unlink_hash_V:
  "unlink_hash i buf at_head s = Some s' \<Longrightarrow> V_hash s' = V_hash s"
  unfolding unlink_hash_def
  by (auto simp: bind_eq_Some_conv Let_def split: option.splits if_splits dest!: bset_hash_links)

lemma remove_walk_V:
  "remove_walk i buf at_head h s = Some s' \<Longrightarrow> V_hash s' = V_hash s"
proof (rule remove_walk.raw_induct[where P="\<lambda>i buf at_head h s s'. V_hash s' = V_hash s"], goal_cases)
  case (1 remove_walk i buf at_head h s s')
  then show ?case
    by (auto simp: bind_eq_Some_conv split: option.splits if_splits dest: unlink_hash_V)
qed

lemma remove_from_hash_V:
  "remove_from_hash buf s = Some s' \<Longrightarrow> V_hash s' = V_hash s"
  unfolding remove_from_hash_def
  by (auto simp: bind_eq_Some_conv Let_def split: option.splits if_splits dest: remove_walk_V)

subsection \<open>Dirty-list operations change dirty links, and the flag on removal\<close>

lemma bset_V_dirty:
  assumes "bset p f s = Some s'"
    and "\<And>b. (f b)\<lparr>b_prev_dirty := None, b_next_dirty := None\<rparr> = b\<lparr>b_prev_dirty := None, b_next_dirty := None\<rparr>"
  shows "V_dirty s' = V_dirty s"
  using assms
  by (auto simp: bset_def bupd_def V_dirty_def map_update map_upd_same split: option.splits if_splits)

lemma bset_dirty_links:
  "bset p (b_next_dirty_update g) s = Some s' \<Longrightarrow> V_dirty s' = V_dirty s"
  "bset p (b_prev_dirty_update g) s = Some s' \<Longrightarrow> V_dirty s' = V_dirty s"
  "bset p (\<lambda>x. x\<lparr>b_prev_dirty := a, b_next_dirty := b\<rparr>) s = Some s' \<Longrightarrow> V_dirty s' = V_dirty s"
  by (erule bset_V_dirty, simp)+

lemma V_dirty_head [simp]:
  "V_dirty (s\<lparr>buffer_dirty_head := h\<rparr>) = V_dirty s"
  "V_dirty (s\<lparr>kstat_dirty := k\<rparr>) = V_dirty s"
  "V_dirty (s\<lparr>buffer_dirty_head := h, kstat_dirty := k\<rparr>) = V_dirty s"
  by (simp_all add: V_dirty_def)

lemma V_dirty_bupd_flags:
  "V_dirty (bupd i (clear_flags F) s) = bupd i (clear_flags F) (V_dirty s)"
proof -
  have "map (\<lambda>b. b\<lparr>b_prev_dirty := None, b_next_dirty := None\<rparr>)
          ((buffer_table s)[i := clear_flags F (buffer_table s ! i)])
      = (map (\<lambda>b. b\<lparr>b_prev_dirty := None, b_next_dirty := None\<rparr>) (buffer_table s))
          [i := clear_flags F (map (\<lambda>b. b\<lparr>b_prev_dirty := None, b_next_dirty := None\<rparr>) (buffer_table s) ! i)]"
  proof (rule nth_equalityI, simp, goal_cases)
    case (1 j)
    then show ?case by (cases "j = i") (simp_all add: clear_flags_def)
  qed
  then show ?thesis
    by (cases s) (simp add: V_dirty_def bupd_def)
qed

lemma insert_on_dirty_list_V:
  "insert_on_dirty_list buf s = Some s' \<Longrightarrow> V_dirty s' = V_dirty s"
  unfolding insert_on_dirty_list_def
  by (auto simp: bind_eq_Some_conv Let_def split: option.splits if_splits dest!: bset_dirty_links)

lemma remove_from_dirty_list_V:
  "remove_from_dirty_list buf s = Some s'
   \<Longrightarrow> V_dirty s' = V_dirty (bupd buf (clear_flags {BUFFER_DIRTY}) s)"
  unfolding remove_from_dirty_list_def
  by (auto simp: bind_eq_Some_conv Let_def bset_Some_iff[where f="clear_flags F" for F] V_dirty_bupd_flags
      split: option.splits if_splits dest!: bset_dirty_links)

subsection \<open>Page operations leave the buffer cache alone\<close>

lemma pset_V: "pset p f s = Some s' \<Longrightarrow> V_pages s' = V_pages s"
  by (auto simp: pset_def V_pages_def split: option.splits if_splits)

lemma V_pages_upd [simp]:
  "V_pages (s\<lparr>page_hash_table := h\<rparr>) = V_pages s"
  "V_pages (s\<lparr>page_head := p\<rparr>) = V_pages s"
  "V_pages (s\<lparr>kstat_cached := c\<rparr>) = V_pages s"
  "V_pages (s\<lparr>kstat_free_pages := n\<rparr>) = V_pages s"
  by (simp_all add: V_pages_def)

lemma pg_insert_on_free_list_V:
  "pg_insert_on_free_list pg s = Some s' \<Longrightarrow> V_pages s' = V_pages s"
  unfolding pg_insert_on_free_list_def
  by (auto simp: bind_eq_Some_conv split: option.splits if_splits dest!: pset_V)

lemma pg_remove_from_free_list_V:
  "pg_remove_from_free_list pg s = Some s' \<Longrightarrow> V_pages s' = V_pages s"
  unfolding pg_remove_from_free_list_def
  by (auto simp: bind_eq_Some_conv Let_def split: option.splits if_splits dest!: pset_V)

lemma pg_unlink_hash_V:
  "pg_unlink_hash i pg at_head s = Some s' \<Longrightarrow> V_pages s' = V_pages s"
  unfolding pg_unlink_hash_def
  by (auto simp: bind_eq_Some_conv Let_def split: option.splits if_splits dest!: pset_V)

lemma pg_remove_walk_V:
  "pg_remove_walk i pg at_head h s = Some s' \<Longrightarrow> V_pages s' = V_pages s"
proof (rule pg_remove_walk.raw_induct[where P="\<lambda>i pg at_head h s s'. V_pages s' = V_pages s"], goal_cases)
  case (1 f i pg at_head h s s')
  then show ?case
    by (auto simp: bind_eq_Some_conv split: option.splits if_splits dest: pg_unlink_hash_V)
qed

lemma pg_remove_from_hash_V:
  "pg_remove_from_hash pg s = Some s' \<Longrightarrow> V_pages s' = V_pages s"
  unfolding pg_remove_from_hash_def
  by (auto simp: bind_eq_Some_conv Let_def split: option.splits if_splits dest: pg_remove_walk_V)

lemma pg_insert_to_hash_V:
  "pg_insert_to_hash pg s = Some s' \<Longrightarrow> V_pages s' = V_pages s"
  unfolding pg_insert_to_hash_def
  by (auto simp: bind_eq_Some_conv Let_def split: option.splits if_splits dest!: pset_V)

lemma get_free_page_V:
  "get_free_page s = Some (r, s') \<Longrightarrow> V_pages s' = V_pages s"
  unfolding get_free_page_def
  by (auto simp: bind_eq_Some_conv split: option.splits if_splits
      dest!: pset_V pg_remove_from_hash_V pg_remove_from_free_list_V)

lemma kmalloc_V: "kmalloc s = Some (r, s') \<Longrightarrow> V_pages s' = V_pages s"
  unfolding kmalloc_def
  by (auto simp: bind_eq_Some_conv split: option.splits if_splits prod.splits dest!: get_free_page_V)

lemma release_page_V: "release_page pn s = Some s' \<Longrightarrow> V_pages s' = V_pages s"
  unfolding release_page_def
  by (auto simp: bind_eq_Some_conv Let_def split: option.splits if_splits
      dest!: pset_V pg_insert_on_free_list_V)

lemma kfree_V: "kfree a s = Some s' \<Longrightarrow> V_pages s' = V_pages s"
  unfolding kfree_def by (rule release_page_V)

lemma page_lock_V: "page_lock pg s = Some s' \<Longrightarrow> V_pages s' = V_pages s"
  unfolding page_lock_def
  by (auto simp: bind_eq_Some_conv split: option.splits if_splits dest!: pset_V)

lemma page_unlock_V: "page_unlock pg s = Some s' \<Longrightarrow> V_pages s' = V_pages s"
  unfolding page_unlock_def by (rule pset_V)

subsection \<open>What a view keeps\<close>

lemma V_pagesD:
  assumes "V_pages s' = V_pages s"
  shows "buffer_table s' = buffer_table s \<and> buffer_head s' = buffer_head s
    \<and> buffer_dirty_head s' = buffer_dirty_head s \<and> buffer_hash_table s' = buffer_hash_table s
    \<and> kstat_buffers s' = kstat_buffers s \<and> kstat_dirty s' = kstat_dirty s
    \<and> io_log s' = io_log s \<and> devices s' = devices s \<and> disk s' = disk s \<and> mem s' = mem s"
proof -
  have o: "\<And>f. (\<And>t. f (V_pages t) = f t) \<Longrightarrow> f s' = f s"
    using assms by metis
  show ?thesis
    by (intro conjI; (rule o, simp add: V_pages_def))
qed

lemma V_pages_fld: "V_pages s' = V_pages s \<Longrightarrow> fld g s' = fld g s"
  by (drule V_pagesD, rule ext) (simp add: fld_def bget_def)

lemma V_freeD:
  assumes "V_free s' = V_free s"
  shows "length (buffer_table s') = length (buffer_table s)
    \<and> fld b_dev s' = fld b_dev s \<and> fld b_block s' = fld b_block s \<and> fld b_size s' = fld b_size s
    \<and> fld b_data s' = fld b_data s \<and> fld b_flags s' = fld b_flags s
    \<and> fld b_prev_hash s' = fld b_prev_hash s \<and> fld b_next_hash s' = fld b_next_hash s
    \<and> fld b_prev_dirty s' = fld b_prev_dirty s \<and> fld b_next_dirty s' = fld b_next_dirty s
    \<and> buffer_dirty_head s' = buffer_dirty_head s \<and> buffer_hash_table s' = buffer_hash_table s
    \<and> kstat_buffers s' = kstat_buffers s \<and> kstat_dirty s' = kstat_dirty s
    \<and> io_log s' = io_log s \<and> devices s' = devices s \<and> disk s' = disk s \<and> mem s' = mem s
    \<and> page_table s' = page_table s \<and> page_head s' = page_head s
    \<and> page_hash_table s' = page_hash_table s \<and> kstat_cached s' = kstat_cached s
    \<and> kstat_free_pages s' = kstat_free_pages s"
proof -
  have m: "map (\<lambda>b. b\<lparr>b_prev_free := None, b_next_free := None\<rparr>) (buffer_table s')
         = map (\<lambda>b. b\<lparr>b_prev_free := None, b_next_free := None\<rparr>) (buffer_table s)"
    using arg_cong[OF assms, of buffer_table] by (simp add: V_free_def)
  have o: "\<And>f. (\<And>t. f (V_free t) = f t) \<Longrightarrow> f s' = f s"
    using assms by metis
  show ?thesis
    by (intro conjI; (rule map_eq_len[OF m] | (rule map_eq_fld[OF m], simp) | (rule o, simp add: V_free_def)))
qed

lemma V_hashD:
  assumes "V_hash s' = V_hash s"
  shows "length (buffer_table s') = length (buffer_table s)
    \<and> length (buffer_hash_table s') = length (buffer_hash_table s)
    \<and> fld b_dev s' = fld b_dev s \<and> fld b_block s' = fld b_block s \<and> fld b_size s' = fld b_size s
    \<and> fld b_data s' = fld b_data s \<and> fld b_flags s' = fld b_flags s
    \<and> fld b_prev_free s' = fld b_prev_free s \<and> fld b_next_free s' = fld b_next_free s
    \<and> fld b_prev_dirty s' = fld b_prev_dirty s \<and> fld b_next_dirty s' = fld b_next_dirty s
    \<and> buffer_dirty_head s' = buffer_dirty_head s \<and> buffer_head s' = buffer_head s
    \<and> kstat_buffers s' = kstat_buffers s \<and> kstat_dirty s' = kstat_dirty s
    \<and> io_log s' = io_log s \<and> devices s' = devices s \<and> disk s' = disk s \<and> mem s' = mem s
    \<and> page_table s' = page_table s \<and> page_head s' = page_head s
    \<and> page_hash_table s' = page_hash_table s \<and> kstat_cached s' = kstat_cached s
    \<and> kstat_free_pages s' = kstat_free_pages s"
proof -
  have m: "map (\<lambda>b. b\<lparr>b_prev_hash := None, b_next_hash := None\<rparr>) (buffer_table s')
         = map (\<lambda>b. b\<lparr>b_prev_hash := None, b_next_hash := None\<rparr>) (buffer_table s)"
    using arg_cong[OF assms, of buffer_table] by (simp add: V_hash_def)
  have h: "map (\<lambda>_. None :: nat option) (buffer_hash_table s') = map (\<lambda>_. None) (buffer_hash_table s)"
    using arg_cong[OF assms, of buffer_hash_table] by (simp add: V_hash_def)
  have hl: "length (buffer_hash_table s') = length (buffer_hash_table s)"
    using h by (metis length_map)
  have o: "\<And>f. (\<And>t. f (V_hash t) = f t) \<Longrightarrow> f s' = f s"
    using assms by metis
  show ?thesis
    by (intro conjI; (rule map_eq_len[OF m] | (rule hl) | (rule map_eq_fld[OF m], simp) | (rule o, simp add: V_hash_def)))
qed

lemma V_dirtyD:
  assumes "V_dirty s' = V_dirty s"
  shows "length (buffer_table s') = length (buffer_table s)
    \<and> fld b_dev s' = fld b_dev s \<and> fld b_block s' = fld b_block s \<and> fld b_size s' = fld b_size s
    \<and> fld b_data s' = fld b_data s \<and> fld b_flags s' = fld b_flags s
    \<and> fld b_prev_free s' = fld b_prev_free s \<and> fld b_next_free s' = fld b_next_free s
    \<and> fld b_prev_hash s' = fld b_prev_hash s \<and> fld b_next_hash s' = fld b_next_hash s
    \<and> buffer_hash_table s' = buffer_hash_table s \<and> buffer_head s' = buffer_head s
    \<and> kstat_buffers s' = kstat_buffers s
    \<and> io_log s' = io_log s \<and> devices s' = devices s \<and> disk s' = disk s \<and> mem s' = mem s
    \<and> page_table s' = page_table s \<and> page_head s' = page_head s
    \<and> page_hash_table s' = page_hash_table s \<and> kstat_cached s' = kstat_cached s
    \<and> kstat_free_pages s' = kstat_free_pages s"
proof -
  have m: "map (\<lambda>b. b\<lparr>b_prev_dirty := None, b_next_dirty := None\<rparr>) (buffer_table s')
         = map (\<lambda>b. b\<lparr>b_prev_dirty := None, b_next_dirty := None\<rparr>) (buffer_table s)"
    using arg_cong[OF assms, of buffer_table] by (simp add: V_dirty_def)
  have o: "\<And>f. (\<And>t. f (V_dirty t) = f t) \<Longrightarrow> f s' = f s"
    using assms by metis
  show ?thesis
    by (intro conjI; (rule map_eq_len[OF m] | (rule map_eq_fld[OF m], simp) | (rule o, simp add: V_dirty_def)))
qed

lemma get_free_buffer_head:
  assumes "get_free_buffer s = Some (g, s1)" and "buffer_head s = Some buf"
  shows "g = Some buf \<and> (\<exists>sa. V_free sa = V_free s \<and> buf < length (buffer_table sa)
            \<and> s1 = bupd buf (set_flags {BUFFER_LOCKED}) sa)"
  using assms unfolding get_free_buffer_def
  by (auto simp: bind_eq_Some_conv bset_Some_iff split: option.splits if_splits
      dest!: remove_from_free_list_V)



lemma bget_in: "i < length (buffer_table s) \<Longrightarrow> bget s (Some i) = Some (buffer_table s ! i)"
  by (simp add: bget_def)

lemma fld_bupd_key:
  assumes "i < length (buffer_table s)"
  shows "fld b_dev (bupd i (\<lambda>x. x\<lparr>b_dev := d, b_block := k, b_size := z\<rparr>) s) = (fld b_dev s)(i := Some d)"
    and "fld b_block (bupd i (\<lambda>x. x\<lparr>b_dev := d, b_block := k, b_size := z\<rparr>) s) = (fld b_block s)(i := Some k)"
    and "fld b_size (bupd i (\<lambda>x. x\<lparr>b_dev := d, b_block := k, b_size := z\<rparr>) s) = (fld b_size s)(i := Some z)"
  using assms by (simp_all add: fun_eq_iff fld_def bget_bupd bget_in)

lemma fld_bupd_data:
  "i < length (buffer_table s) \<Longrightarrow> fld b_data (bupd i (b_data_update (\<lambda>_. a)) s) = (fld b_data s)(i := Some a)"
  by (simp add: fun_eq_iff fld_def bget_bupd bget_in)

lemma getblk_rebind_effect:
  assumes "getblk_rebind buf dev block sz s = Some (r, s')"
  shows "r = Some buf \<and> buf < length (buffer_table s)
    \<and> length (buffer_table s') = length (buffer_table s)
    \<and> fld b_dev s' = (fld b_dev s)(buf := Some dev)
    \<and> fld b_block s' = (fld b_block s)(buf := Some block)
    \<and> fld b_size s' = (fld b_size s)(buf := Some sz)
    \<and> fld b_data s' = fld b_data s
    \<and> fld b_flags s' = (fld b_flags s)(buf := map_option (\<lambda>X. X - {BUFFER_VALID}) (fld b_flags s buf))
    \<and> fld b_prev_free s' = fld b_prev_free s \<and> fld b_next_free s' = fld b_next_free s
    \<and> fld b_prev_dirty s' = fld b_prev_dirty s \<and> fld b_next_dirty s' = fld b_next_dirty s
    \<and> buffer_head s' = buffer_head s \<and> buffer_dirty_head s' = buffer_dirty_head s
    \<and> kstat_buffers s' = kstat_buffers s \<and> kstat_dirty s' = kstat_dirty s
    \<and> io_log s' = io_log s \<and> devices s' = devices s \<and> disk s' = disk s \<and> mem s' = mem s"
  using assms unfolding getblk_rebind_def
  by (auto simp: bind_eq_Some_conv bset_Some_iff fld_bupd_key fld_bupd_same
      dest!: remove_from_hash_V[THEN V_hashD] insert_to_hash_V[THEN V_hashD])


lemma fld_in: "i < length (buffer_table s) \<Longrightarrow> fld g s i = Some (g (buffer_table s ! i))"
  by (simp add: fld_def bget_in)

lemma fld_log [simp]: "fld g (s\<lparr>io_log := l\<rparr>) = fld g s"
  by (simp add: fun_eq_iff fld_def bget_def)


subsection \<open>Linked paths\<close>

lemma seg_append: "seg nxt p (xs @ ys) q = (\<exists>r. seg nxt p xs r \<and> seg nxt r ys q)"
  by (induction xs arbitrary: p) auto

lemma seg_upd: "i \<notin> set xs \<Longrightarrow> seg (nxt(i := v)) p xs q = seg nxt p xs q"
  by (induction xs arbitrary: p) auto

lemma prevs_upd: "i \<notin> set xs \<Longrightarrow> prevs (prv(i := v)) q xs = prevs prv q xs"
  by (induction xs arbitrary: q) auto

lemma prevs_append:
  "prevs prv q (xs @ ys) = (prevs prv q xs \<and> prevs prv (if xs = [] then q else Some (last xs)) ys)"
  by (induction xs arbitrary: q) auto

lemma path_unique: "seg nxt p xs None \<Longrightarrow> seg nxt p ys None \<Longrightarrow> xs = ys"
proof (induction xs arbitrary: p ys)
  case Nil then show ?case by (cases ys) auto
next
  case (Cons x xs) then show ?case by (cases ys) auto
qed

lemma follow_path: "seg nxt p xs None \<Longrightarrow> length xs \<le> n \<Longrightarrow> follow nxt n p = xs"
proof (induction n arbitrary: p xs)
  case 0 then show ?case by simp
next
  case (Suc n) then show ?case by (cases xs) auto
qed

lemma seg_last_next:
  "seg nxt p (xs @ [x]) q \<Longrightarrow> nxt x = q"
  by (simp add: seg_append)

text \<open>Unlinking an element of a doubly linked path.\<close>

lemma unlink_path:
  assumes p: "seg nxt h (as @ b # cs) None" and d: "distinct (as @ b # cs)"
    and pv: "prevs prv None (as @ b # cs)"
  defines "nxt' \<equiv> (case prv b of None \<Rightarrow> nxt | Some q \<Rightarrow> nxt(q := nxt b))"
    and "prv' \<equiv> (case nxt b of None \<Rightarrow> prv | Some n \<Rightarrow> prv(n := prv b))"
    and "h' \<equiv> (if as = [] then nxt b else h)"
  shows "seg nxt' h' (as @ cs) None \<and> prevs prv' None (as @ cs)
         \<and> prv b = (if as = [] then None else Some (last as))
         \<and> nxt b = (if cs = [] then None else Some (hd cs))"
proof -
  from p obtain r where r: "seg nxt h as r" "r = Some b" "seg nxt (nxt b) cs None"
    by (auto simp: seg_append)
  from pv have pb: "prv b = (if as = [] then None else Some (last as))"
    and pas: "prevs prv None as" and pcs: "prevs prv (Some b) cs"
    by (auto simp: prevs_append)
  have nb: "nxt b = (if cs = [] then None else Some (hd cs))"
    using r(3) by (cases cs) auto
  show ?thesis
  proof (cases "as = []")
    case True
    then have n': "nxt' = nxt" using pb by (simp add: nxt'_def)
    have "prevs prv' None cs"
    proof (cases cs)
      case Nil then show ?thesis by simp
    next
      case (Cons c cs')
      with d pcs nb pb True show ?thesis
        by (auto simp: prv'_def prevs_upd)
    qed
    with True r n' pb nb show ?thesis by (simp add: h'_def)
  next
    case False
    then obtain as' a where as: "as = as' @ [a]" by (metis rev_exhaust)
    with pb have pba: "prv b = Some a" by simp
    then have n': "nxt' = nxt(a := nxt b)" by (simp add: nxt'_def)
    from r(1) as have sa: "seg nxt h as' (Some a)" and na: "nxt a = Some b"
      using r(2) by (auto simp: seg_append)
    from d as have a1: "a \<notin> set as'" "a \<notin> set cs" "b \<notin> set as'" "b \<notin> set cs" "a \<noteq> b"
      by auto
    have s1: "seg nxt' h (as' @ [a]) (nxt b)"
      using sa a1 by (simp add: seg_append n' seg_upd)
    have s2: "seg nxt' (nxt b) cs None"
      using r(3) a1 by (simp add: n' seg_upd)
    have segs: "seg nxt' h' (as @ cs) None"
      using s1 s2 False by (auto simp: seg_append h'_def as)
    have "prevs prv' None (as @ cs)"
    proof (cases cs)
      case Nil
      then show ?thesis using pas nb by (simp add: prv'_def)
    next
      case (Cons c cs')
      then have nbc: "nxt b = Some c" using nb by simp
      from d Cons as have c1: "c \<notin> set as" "c \<notin> set cs'" by auto
      from pcs Cons have "prevs prv (Some c) cs'" by simp
      then have "prevs prv' (Some c) cs'" using c1 by (simp add: prv'_def nbc prevs_upd)
      moreover have "prevs prv' None as" using pas c1 by (simp add: prv'_def nbc prevs_upd)
      moreover have "prv' c = Some a" by (simp add: prv'_def nbc pba)
      ultimately show ?thesis using as Cons by (simp add: prevs_append)
    qed
    with segs pb nb show ?thesis by simp
  qed
qed

subsection \<open>Hash chains\<close>

lemma blink_fld: "blink g s i = (case fld g s i of None \<Rightarrow> None | Some v \<Rightarrow> v)"
  by (simp add: blink_def fld_def split: option.splits)

lemma blink_cong: "fld g s' = fld g s \<Longrightarrow> blink g s' = blink g s"
  by (rule ext) (simp add: blink_fld)

lemma blink_in: "i < length (buffer_table s) \<Longrightarrow> blink g s i = g (buffer_table s ! i)"
  by (simp add: blink_def bget_in)

lemma distinct_bound:
  assumes "distinct xs" and "list_all (\<lambda>x. x < n) xs"
  shows "length xs \<le> n"
proof -
  from assms(2) have "set xs \<subseteq> {..<n}" by (auto simp: list_all_iff)
  then have "card (set xs) \<le> card {..<n}" by (intro card_mono) auto
  with assms(1) show ?thesis by (simp add: distinct_card)
qed

lemma chain_chain_of:
  assumes "chain s k xs"
  shows "chain_of s k = xs"
proof -
  from assms have "seg (blink b_next_hash s) (buffer_hash_table s ! k) xs None"
    and "distinct xs" and "list_all (\<lambda>x. x < length (buffer_table s)) xs"
    by (auto simp: chain_def list_all_iff)
  then show ?thesis
    unfolding chain_of_def by (intro follow_path distinct_bound)
qed

lemma hash_okD: "hash_ok s \<Longrightarrow> k < length (buffer_hash_table s) \<Longrightarrow> chain s k (chain_of s k)"
  by (simp add: hash_ok_def list_all_iff)

lemma hash_okI:
  "(\<And>k. k < length (buffer_hash_table s) \<Longrightarrow> \<exists>xs. chain s k xs) \<Longrightarrow> hash_ok s"
  unfolding hash_ok_def list_all_iff using chain_chain_of by fastforce

lemma search_walk_path:
  assumes "seg (blink b_next_hash s) p xs None" and "list_all (\<lambda>x. x < length (buffer_table s)) xs"
  shows "search_walk dev block sz p s
     = Some (find (\<lambda>x. b_dev (buffer_table s ! x) = dev \<and> b_block (buffer_table s ! x) = block
                      \<and> b_size (buffer_table s ! x) = sz) xs)"
  using assms
proof (induction xs arbitrary: p)
  case Nil
  then show ?case by (simp add: search_walk.simps)
next
  case (Cons x xs)
  then show ?case
    by (subst search_walk.simps) (simp add: bget_in blink_in)
qed

lemma search_buffer_hash_chain:
  assumes "chain s (BUFFER_HASH dev block s) xs"
    and "BUFFER_HASH dev block s < length (buffer_hash_table s)"
  shows "search_buffer_hash dev block sz s
     = Some (find (\<lambda>x. b_dev (buffer_table s ! x) = dev \<and> b_block (buffer_table s ! x) = block
                      \<and> b_size (buffer_table s ! x) = sz) xs)"
  using assms unfolding search_buffer_hash_def chain_def
  by (simp add: slot_get_def search_walk_path list_all_iff)

lemma blink_bupd:
  "i < length (buffer_table s) \<Longrightarrow> blink g (bupd i f s) = (blink g s)(i := g (f (buffer_table s ! i)))"
  by (rule ext) (simp add: blink_def bget_bupd bget_in)

lemma blink_upd_idem:
  "i < length (buffer_table s) \<Longrightarrow> (blink g s)(i := g (buffer_table s ! i)) = blink g s"
  by (rule ext) (simp add: blink_in)

lemma blink_slot [simp]: "blink g (s\<lparr>buffer_hash_table := h\<rparr>) = blink g s"
  by (rule ext) (simp add: blink_def bget_def)

lemma bupd_nth:
  "i < length (buffer_table s) \<Longrightarrow> buffer_table (bupd i f s) ! j = (if j = i then f (buffer_table s ! i) else buffer_table s ! j)"
  by (simp add: bupd_def)

lemma upd_idem_in:
  "i < length (buffer_table s) \<Longrightarrow> F i = blink g s i \<Longrightarrow> F(i := g (buffer_table s ! i)) = F"
  by (simp add: fun_upd_idem_iff blink_in)

lemma insert_to_hash_effect:
  assumes "insert_to_hash buf s = Some s'"
  shows "buf < length (buffer_table s) \<and> bucket_of s buf < length (buffer_hash_table s)
    \<and> blink b_next_hash s' = (blink b_next_hash s)(buf := buffer_hash_table s ! bucket_of s buf)
    \<and> blink b_prev_hash s' =
        (case buffer_hash_table s ! bucket_of s buf of
           None \<Rightarrow> (blink b_prev_hash s)(buf := None)
         | Some old \<Rightarrow> (blink b_prev_hash s)(buf := None, old := Some buf))
    \<and> buffer_hash_table s' = (buffer_hash_table s)[bucket_of s buf := Some buf]"
proof (cases "buffer_hash_table s ! bucket_of s buf")
  case None
  with assms show ?thesis
    unfolding insert_to_hash_def bucket_of_def
    by (auto simp: bind_eq_Some_conv Let_def bset_Some_iff bget_Some_iff slot_get_def blink_bupd
        split: if_splits)
next
  case (Some old)
  with assms show ?thesis
    unfolding insert_to_hash_def bucket_of_def
    by (auto simp: bind_eq_Some_conv Let_def bset_Some_iff bget_Some_iff slot_get_def blink_bupd
        bupd_nth upd_idem_in split: if_splits)
qed

lemma unlink_hash_effect:
  assumes "unlink_hash k buf at_head s = Some s'"
    and "blink b_next_hash s buf \<noteq> Some buf" and "blink b_prev_hash s buf \<noteq> Some buf"
  shows "buf < length (buffer_table s)
    \<and> blink b_next_hash s' =
        (case blink b_prev_hash s buf of None \<Rightarrow> blink b_next_hash s
         | Some q \<Rightarrow> (blink b_next_hash s)(q := blink b_next_hash s buf))
    \<and> blink b_prev_hash s' =
        (case blink b_next_hash s buf of None \<Rightarrow> blink b_prev_hash s
         | Some n \<Rightarrow> (blink b_prev_hash s)(n := blink b_prev_hash s buf))
    \<and> buffer_hash_table s' =
        (if at_head then (buffer_hash_table s)[k := blink b_next_hash s buf] else buffer_hash_table s)"
proof -
  from assms(1) have len: "buf < length (buffer_table s)"
    unfolding unlink_hash_def by (auto simp: bind_eq_Some_conv bget_Some_iff)
  show ?thesis
  proof (cases "b_next_hash (buffer_table s ! buf)"; cases "b_prev_hash (buffer_table s ! buf)")
    fix n q
    assume "b_next_hash (buffer_table s ! buf) = Some n" "b_prev_hash (buffer_table s ! buf) = Some q"
    with assms len show ?thesis
      unfolding unlink_hash_def
      by (auto simp: bind_eq_Some_conv Let_def bset_Some_iff bget_Some_iff blink_bupd blink_in
          bupd_nth upd_idem_in)
  qed (use assms len in \<open>auto simp: unlink_hash_def bind_eq_Some_conv Let_def bset_Some_iff bget_Some_iff blink_bupd blink_in
          bupd_nth upd_idem_in\<close>)
qed

lemma remove_walk_notin:
  assumes "seg (blink b_next_hash s) p ys None" and "list_all (\<lambda>x. x < length (buffer_table s)) ys"
    and "buf \<notin> set ys"
  shows "remove_walk k buf at_head p s = Some s"
  using assms
proof (induction ys arbitrary: p at_head)
  case Nil
  then show ?case by (simp add: remove_walk.simps)
next
  case (Cons y ys)
  then show ?case by (subst remove_walk.simps) (simp add: bget_in blink_in)
qed

lemma remove_walk_in:
  assumes "seg (blink b_next_hash s) p (as @ buf # cs) None"
    and "list_all (\<lambda>x. x < length (buffer_table s)) as" and "buf \<notin> set as"
  shows "remove_walk k buf at_head p s = unlink_hash k buf (at_head \<and> as = []) s"
  using assms
proof (induction as arbitrary: p at_head)
  case Nil
  then show ?case by (subst remove_walk.simps) simp
next
  case (Cons a as)
  then show ?case by (subst remove_walk.simps) (simp add: bget_in blink_in)
qed

lemma chain_valid: "chain s k xs \<Longrightarrow> x \<in> set xs \<Longrightarrow> x < length (buffer_table s) \<and> bucket_of s x = k"
  by (auto simp: chain_def list_all_iff bucket_of_def)

lemma chain_frame:
  assumes "chain s k xs"
    and "seg (blink b_next_hash s') (buffer_hash_table s' ! k) xs None"
    and "prevs (blink b_prev_hash s') None xs"
    and "length (buffer_table s') = length (buffer_table s)"
    and "\<And>x. x \<in> set xs \<Longrightarrow> bucket_of s' x = bucket_of s x"
  shows "chain s' k xs"
  using assms by (auto simp: chain_def list_all_iff bucket_of_def)

lemma bucket_of_cong:
  assumes "fld b_dev s' = fld b_dev s" and "fld b_block s' = fld b_block s"
    and "length (buffer_hash_table s') = length (buffer_hash_table s)"
    and "length (buffer_table s') = length (buffer_table s)" and "x < length (buffer_table s)"
  shows "bucket_of s' x = bucket_of s x"
proof -
  have "fld b_dev s' x = fld b_dev s x" "fld b_block s' x = fld b_block s x"
    using assms(1,2) by simp_all
  then have "b_dev (buffer_table s' ! x) = b_dev (buffer_table s ! x)"
    "b_block (buffer_table s' ! x) = b_block (buffer_table s ! x)"
    using assms(4,5) by (simp_all add: fld_in)
  then have True by simp
  moreover note \<open>b_dev (buffer_table s' ! x) = b_dev (buffer_table s ! x)\<close>
  moreover note \<open>b_block (buffer_table s' ! x) = b_block (buffer_table s ! x)\<close>
  ultimately show ?thesis using assms(3) by (simp add: bucket_of_def BUFFER_HASH_def)
qed

lemma remove_from_hash_chains:
  assumes ok: "hash_ok s" and rm: "remove_from_hash buf s = Some s'"
  shows "hash_ok s' \<and> (\<forall>k < length (buffer_hash_table s). chain_of s' k = removeAll buf (chain_of s k))"
proof -
  from rm have len: "buf < length (buffer_table s)"
    and k0: "bucket_of s buf < length (buffer_hash_table s)"
    and walk: "remove_walk (bucket_of s buf) buf True (buffer_hash_table s ! bucket_of s buf) s = Some s'"
    unfolding remove_from_hash_def bucket_of_def
    by (auto simp: bind_eq_Some_conv Let_def bget_Some_iff slot_get_def split: if_splits)
  let ?k0 = "bucket_of s buf"
  let ?xs = "chain_of s ?k0"
  note V = V_hashD[OF remove_from_hash_V[OF rm]]
  have c0: "chain s ?k0 ?xs" by (rule hash_okD[OF ok k0])
  have lent: "length (buffer_table s') = length (buffer_table s)" using V by simp
  have bk: "\<And>x. x < length (buffer_table s) \<Longrightarrow> bucket_of s' x = bucket_of s x"
    using V by (intro bucket_of_cong) simp_all
  have other: "\<And>k. k < length (buffer_hash_table s) \<Longrightarrow> k \<noteq> ?k0 \<Longrightarrow> buf \<notin> set (chain_of s k)"
    using chain_valid[OF hash_okD[OF ok]] by blast
  show ?thesis
  proof (cases "buf \<in> set ?xs")
    case False
    from c0 have "seg (blink b_next_hash s) (buffer_hash_table s ! ?k0) ?xs None"
      "list_all (\<lambda>x. x < length (buffer_table s)) ?xs"
      by (auto simp: chain_def list_all_iff)
    from remove_walk_notin[OF this False] walk have "s' = s" by simp
    moreover have "\<forall>k < length (buffer_hash_table s). buf \<notin> set (chain_of s k)"
      using other False by blast
    ultimately show ?thesis using ok by simp
  next
    case True
    then obtain as cs where xs: "?xs = as @ buf # cs" and nas: "buf \<notin> set as"
      by (meson split_list_first)
    from c0 xs have sg: "seg (blink b_next_hash s) (buffer_hash_table s ! ?k0) (as @ buf # cs) None"
      and pv: "prevs (blink b_prev_hash s) None (as @ buf # cs)"
      and di: "distinct (as @ buf # cs)"
      and va: "list_all (\<lambda>x. x < length (buffer_table s)) (as @ buf # cs)"
      by (auto simp: chain_def list_all_iff)
    from va have vas: "list_all (\<lambda>x. x < length (buffer_table s)) as" by simp
    from remove_walk_in[OF sg vas nas] walk
    have ul: "unlink_hash ?k0 buf (as = []) s = Some s'" by simp
    note U = unlink_path[OF sg di pv]
    from U di have self: "blink b_next_hash s buf \<noteq> Some buf" "blink b_prev_hash s buf \<noteq> Some buf"
      by (auto split: if_splits dest: last_in_set hd_in_set)
    note E = unlink_hash_effect[OF ul self]
    let ?nxt' = "case blink b_prev_hash s buf of None \<Rightarrow> blink b_next_hash s
         | Some q \<Rightarrow> (blink b_next_hash s)(q := blink b_next_hash s buf)"
    let ?prv' = "case blink b_next_hash s buf of None \<Rightarrow> blink b_prev_hash s
         | Some n \<Rightarrow> (blink b_prev_hash s)(n := blink b_prev_hash s buf)"
    have n': "blink b_next_hash s' = ?nxt'" and p': "blink b_prev_hash s' = ?prv'"
      and h': "buffer_hash_table s' =
        (if as = [] then (buffer_hash_table s)[?k0 := blink b_next_hash s buf] else buffer_hash_table s)"
      using E by simp_all
    have hk0: "buffer_hash_table s' ! ?k0 = (if as = [] then blink b_next_hash s buf else buffer_hash_table s ! ?k0)"
      using k0 by (simp add: h')
    have ch0: "chain s' ?k0 (as @ cs)"
      unfolding chain_def
    proof (intro conjI)
      show "seg (blink b_next_hash s') (buffer_hash_table s' ! ?k0) (as @ cs) None"
        unfolding n' hk0 by (rule U[THEN conjunct1])
      show "prevs (blink b_prev_hash s') None (as @ cs)"
        unfolding p' by (rule U[THEN conjunct2, THEN conjunct1])
      show "distinct (as @ cs)" using di by simp
      show "list_all (\<lambda>x. x < length (buffer_table s')
           \<and> BUFFER_HASH (b_dev (buffer_table s' ! x)) (b_block (buffer_table s' ! x)) s' = ?k0) (as @ cs)"
        unfolding list_all_iff
      proof
        fix x assume "x \<in> set (as @ cs)"
        then have "x \<in> set ?xs" using xs by auto
        from chain_valid[OF c0 this] bk[of x] lent
        show "x < length (buffer_table s')
           \<and> BUFFER_HASH (b_dev (buffer_table s' ! x)) (b_block (buffer_table s' ! x)) s' = ?k0"
          by (simp add: bucket_of_def)
      qed
    qed
    have chk: "chain s' k (chain_of s k)" if k: "k < length (buffer_hash_table s)" "k \<noteq> ?k0" for k
    proof -
      let ?ys = "chain_of s k"
      have c: "chain s k ?ys" by (rule hash_okD[OF ok k(1)])
      have disj: "\<And>x. x \<in> set (as @ buf # cs) \<Longrightarrow> x \<notin> set ?ys"
        using chain_valid[OF c] chain_valid[OF c0] xs k(2) by metis
      have q: "\<And>q. blink b_prev_hash s buf = Some q \<Longrightarrow> q \<notin> set ?ys"
        using U disj by (auto split: if_splits dest: last_in_set)
      have n: "\<And>n. blink b_next_hash s buf = Some n \<Longrightarrow> n \<notin> set ?ys"
        using U disj by (auto split: if_splits dest: hd_in_set)
      have hk: "buffer_hash_table s' ! k = buffer_hash_table s ! k"
        using k by (simp add: h')
      show ?thesis
        unfolding chain_def
      proof (intro conjI)
        show "seg (blink b_next_hash s') (buffer_hash_table s' ! k) ?ys None"
          using c q by (auto simp: n' hk chain_def seg_upd split: option.splits)
        show "prevs (blink b_prev_hash s') None ?ys"
          using c n by (auto simp: p' chain_def prevs_upd split: option.splits)
        show "distinct ?ys" using c by (simp add: chain_def)
        show "list_all (\<lambda>x. x < length (buffer_table s')
           \<and> BUFFER_HASH (b_dev (buffer_table s' ! x)) (b_block (buffer_table s' ! x)) s' = k) ?ys"
          unfolding list_all_iff
        proof
          fix x assume "x \<in> set ?ys"
          from chain_valid[OF c this] bk[of x] lent
          show "x < length (buffer_table s')
             \<and> BUFFER_HASH (b_dev (buffer_table s' ! x)) (b_block (buffer_table s' ! x)) s' = k"
            by (simp add: bucket_of_def)
        qed
      qed
    qed
    have lenh: "length (buffer_hash_table s') = length (buffer_hash_table s)" using V by simp
    have all: "\<And>k. k < length (buffer_hash_table s) \<Longrightarrow>
        chain s' k (removeAll buf (chain_of s k))"
    proof -
      fix k assume k: "k < length (buffer_hash_table s)"
      show "chain s' k (removeAll buf (chain_of s k))"
      proof (cases "k = ?k0")
        case True
        have "removeAll buf (as @ buf # cs) = as @ cs" using di by (simp add: removeAll_id)
        with ch0 xs True show ?thesis by simp
      next
        case False
        with other[OF k] chk[OF k] show ?thesis by (simp add: removeAll_id)
      qed
    qed
    have "hash_ok s'" using all lenh by (intro hash_okI) auto
    moreover have "\<forall>k < length (buffer_hash_table s). chain_of s' k = removeAll buf (chain_of s k)"
      using all chain_chain_of by blast
    ultimately show ?thesis by simp
  qed
qed

lemma in_hash_chain_of:
  "in_hash s x \<longleftrightarrow> (\<exists>k < length (buffer_hash_table s). x \<in> set (chain_of s k))"
proof -
  have "set (hash_nodes s) = (\<Union>k \<in> {..<length (buffer_hash_table s)}. set (chain_of s k))"
    unfolding hash_nodes_def chain_of_def set_concat set_map
    by (subst set_conv_nth[of "buffer_hash_table s"]) auto
  then show ?thesis by (auto simp: in_hash_def)
qed

lemma chain_eq:
  assumes "blink b_next_hash s' = blink b_next_hash s" and "blink b_prev_hash s' = blink b_prev_hash s"
    and "buffer_hash_table s' ! k = buffer_hash_table s ! k"
    and "length (buffer_table s') = length (buffer_table s)"
    and "\<And>x. x \<in> set xs \<Longrightarrow> x < length (buffer_table s) \<Longrightarrow> bucket_of s' x = bucket_of s x"
  shows "chain s' k xs = chain s k xs"
  using assms by (auto simp: chain_def list_all_iff bucket_of_def)

lemma hash_frame:
  assumes n: "blink b_next_hash s' = blink b_next_hash s" and p: "blink b_prev_hash s' = blink b_prev_hash s"
    and h: "buffer_hash_table s' = buffer_hash_table s"
    and l: "length (buffer_table s') = length (buffer_table s)"
    and d: "fld b_dev s' = fld b_dev s" and b: "fld b_block s' = fld b_block s"
  shows "chain_of s' = chain_of s \<and> hash_ok s' = hash_ok s \<and> in_hash s' = in_hash s"
proof -
  have c: "chain_of s' = chain_of s"
    by (rule ext) (simp add: chain_of_def n h l)
  have "\<And>k xs. chain s' k xs = chain s k xs"
    using n p l by (intro chain_eq bucket_of_cong) (simp_all add: h d b)
  then have "hash_ok s' = hash_ok s" by (simp add: hash_ok_def c h)
  moreover have "in_hash s' = in_hash s" by (rule ext) (simp add: in_hash_chain_of c h)
  ultimately show ?thesis using c by simp
qed

lemma rekey_chains:
  fixes d :: nat and k :: int and z :: int
  assumes ok: "hash_ok s" and nin: "\<not> in_hash s buf" and len: "buf < length (buffer_table s)"
  defines "s' \<equiv> bupd buf (\<lambda>x. x\<lparr>b_dev := d, b_block := k, b_size := z\<rparr>) s"
  shows "hash_ok s' \<and> chain_of s' = chain_of s"
proof -
  have n: "blink b_next_hash s' = blink b_next_hash s" and p: "blink b_prev_hash s' = blink b_prev_hash s"
    using len by (simp_all add: s'_def blink_bupd blink_upd_idem)
  have h: "buffer_hash_table s' = buffer_hash_table s" and l: "length (buffer_table s') = length (buffer_table s)"
    by (simp_all add: s'_def)
  have c: "chain_of s' = chain_of s"
    by (rule ext) (simp add: chain_of_def n h l)
  have "chain s' j (chain_of s j)" if j: "j < length (buffer_hash_table s)" for j
  proof -
    have "buf \<notin> set (chain_of s j)" using nin j by (auto simp: in_hash_chain_of)
    then have "\<And>x. x \<in> set (chain_of s j) \<Longrightarrow> bucket_of s' x = bucket_of s x"
      using len by (auto simp: bucket_of_def s'_def bupd_nth BUFFER_HASH_def)
    then have "chain s' j (chain_of s j) = chain s j (chain_of s j)"
      using n p l h by (intro chain_eq) simp_all
    with hash_okD[OF ok j] show ?thesis by simp
  qed
  then have "hash_ok s'" using h by (intro hash_okI) auto
  with c show ?thesis by simp
qed

lemma insert_to_hash_chains:
  assumes ok: "hash_ok s" and nin: "\<not> in_hash s buf" and ins: "insert_to_hash buf s = Some s'"
  shows "hash_ok s' \<and> (\<forall>k < length (buffer_hash_table s).
            chain_of s' k = (if k = bucket_of s buf then buf # chain_of s k else chain_of s k))"
proof -
  note E = insert_to_hash_effect[OF ins]
  note V = V_hashD[OF insert_to_hash_V[OF ins]]
  let ?k0 = "bucket_of s buf"
  let ?xs = "chain_of s ?k0"
  from E have len: "buf < length (buffer_table s)" and k0: "?k0 < length (buffer_hash_table s)"
    and n': "blink b_next_hash s' = (blink b_next_hash s)(buf := buffer_hash_table s ! ?k0)"
    and p': "blink b_prev_hash s' =
        (case buffer_hash_table s ! ?k0 of
           None \<Rightarrow> (blink b_prev_hash s)(buf := None)
         | Some old \<Rightarrow> (blink b_prev_hash s)(buf := None, old := Some buf))"
    and h': "buffer_hash_table s' = (buffer_hash_table s)[?k0 := Some buf]"
    by simp_all
  have lent: "length (buffer_table s') = length (buffer_table s)" using V by simp
  have bk: "\<And>x. x < length (buffer_table s) \<Longrightarrow> bucket_of s' x = bucket_of s x"
    using V by (intro bucket_of_cong) simp_all
  have nb: "\<And>k. k < length (buffer_hash_table s) \<Longrightarrow> buf \<notin> set (chain_of s k)"
    using nin by (auto simp: in_hash_chain_of)
  have c0: "chain s ?k0 ?xs" by (rule hash_okD[OF ok k0])
  have ch0: "chain s' ?k0 (buf # ?xs)"
    unfolding chain_def
  proof (intro conjI)
    show "seg (blink b_next_hash s') (buffer_hash_table s' ! ?k0) (buf # ?xs) None"
      using c0 nb[OF k0] k0 by (simp add: n' h' chain_def seg_upd)
    show "prevs (blink b_prev_hash s') None (buf # ?xs)"
    proof (cases ?xs)
      case Nil
      with c0 have "buffer_hash_table s ! ?k0 = None" by (simp add: chain_def)
      with Nil show ?thesis by (simp add: p')
    next
      case (Cons old rest)
      with c0 have hd: "buffer_hash_table s ! ?k0 = Some old" and pr: "prevs (blink b_prev_hash s) (Some old) rest"
        and di: "old \<notin> set rest" by (auto simp: chain_def)
      from Cons nb[OF k0] have nbo: "buf \<noteq> old" "buf \<notin> set rest" by auto
      show ?thesis using pr di nbo by (simp add: Cons p' hd prevs_upd)
    qed
    show "distinct (buf # ?xs)" using c0 nb[OF k0] by (simp add: chain_def)
    show "list_all (\<lambda>x. x < length (buffer_table s')
           \<and> BUFFER_HASH (b_dev (buffer_table s' ! x)) (b_block (buffer_table s' ! x)) s' = ?k0) (buf # ?xs)"
      unfolding list_all_iff
    proof
      fix x assume "x \<in> set (buf # ?xs)"
      then have "x < length (buffer_table s) \<and> bucket_of s x = ?k0"
        using chain_valid[OF c0] len by auto
      with bk[of x] lent
      show "x < length (buffer_table s')
           \<and> BUFFER_HASH (b_dev (buffer_table s' ! x)) (b_block (buffer_table s' ! x)) s' = ?k0"
        by (simp add: bucket_of_def)
    qed
  qed
  have chk: "chain s' k (chain_of s k)" if k: "k < length (buffer_hash_table s)" "k \<noteq> ?k0" for k
  proof -
    let ?ys = "chain_of s k"
    have c: "chain s k ?ys" by (rule hash_okD[OF ok k(1)])
    have old: "\<And>old. buffer_hash_table s ! ?k0 = Some old \<Longrightarrow> old \<notin> set ?ys"
    proof
      fix old assume o: "buffer_hash_table s ! ?k0 = Some old" and "old \<in> set ?ys"
      from c0 o have "old \<in> set ?xs" by (cases ?xs) (auto simp: chain_def)
      with chain_valid[OF c0] chain_valid[OF c] \<open>old \<in> set ?ys\<close> k(2) show False by metis
    qed
    show ?thesis
      unfolding chain_def
    proof (intro conjI)
      show "seg (blink b_next_hash s') (buffer_hash_table s' ! k) ?ys None"
        using c nb[OF k(1)] k by (simp add: n' h' chain_def seg_upd)
      show "prevs (blink b_prev_hash s') None ?ys"
        using c nb[OF k(1)] old by (auto simp: p' chain_def prevs_upd split: option.splits)
      show "distinct ?ys" using c by (simp add: chain_def)
      show "list_all (\<lambda>x. x < length (buffer_table s')
           \<and> BUFFER_HASH (b_dev (buffer_table s' ! x)) (b_block (buffer_table s' ! x)) s' = k) ?ys"
        unfolding list_all_iff
      proof
        fix x assume "x \<in> set ?ys"
        from chain_valid[OF c this] bk[of x] lent
        show "x < length (buffer_table s')
             \<and> BUFFER_HASH (b_dev (buffer_table s' ! x)) (b_block (buffer_table s' ! x)) s' = k"
          by (simp add: bucket_of_def)
      qed
    qed
  qed
  have lenh: "length (buffer_hash_table s') = length (buffer_hash_table s)" by (simp add: h')
  have all: "chain s' k (if k = ?k0 then buf # chain_of s k else chain_of s k)"
    if "k < length (buffer_hash_table s)" for k
    using that ch0 chk by auto
  have "hash_ok s'" using all lenh by (intro hash_okI) auto
  moreover have "\<forall>k < length (buffer_hash_table s).
      chain_of s' k = (if k = ?k0 then buf # chain_of s k else chain_of s k)"
    using all chain_chain_of by blast
  ultimately show ?thesis by simp
qed

subsection \<open>Effects of the buffer operations\<close>

lemma has_flag_flag_on: "has_flag s i f = flag_on s i f"
  by (auto simp: has_flag_def flag_on_def fld_def split: option.splits)

lemma brelse_effect:
  assumes "brelse buf s = Some s'"
  shows "buf < length (buffer_table s) \<and> length (buffer_table s') = length (buffer_table s)
    \<and> fld b_flags s' = (fld b_flags s)(buf := map_option (\<lambda>X. X - {BUFFER_LOCKED}) (fld b_flags s buf))
    \<and> fld b_data s' = fld b_data s \<and> fld b_dev s' = fld b_dev s \<and> fld b_block s' = fld b_block s
    \<and> fld b_size s' = fld b_size s
    \<and> fld b_prev_hash s' = fld b_prev_hash s \<and> fld b_next_hash s' = fld b_next_hash s
    \<and> buffer_hash_table s' = buffer_hash_table s \<and> kstat_buffers s' = kstat_buffers s
    \<and> io_log s' = io_log s \<and> devices s' = devices s \<and> disk s' = disk s \<and> mem s' = mem s
    \<and> page_table s' = page_table s \<and> page_head s' = page_head s
    \<and> page_hash_table s' = page_hash_table s \<and> kstat_cached s' = kstat_cached s
    \<and> kstat_free_pages s' = kstat_free_pages s"
  using assms unfolding brelse_def
  by (auto simp: bind_eq_Some_conv bset_Some_iff bget_Some_iff fld_bupd_same
      dest!: insert_on_dirty_list_V[THEN V_dirtyD] insert_on_free_list_V[THEN V_freeD]
      split: if_splits)

lemma sync_one_buffer_effect:
  assumes "sync_one_buffer buf s = Some s'"
  shows "length (buffer_table s') = length (buffer_table s)
    \<and> (\<exists>w. io_log s' = io_log s @ w \<and> (w = [] \<or> (\<exists>a b c d. w = [WriteBlock a b c d])))
    \<and> (\<exists>F. fld b_flags s' = (fld b_flags s)(buf := map_option (\<lambda>X. X - F) (fld b_flags s buf))
          \<and> F \<subseteq> {BUFFER_DIRTY})
    \<and> fld b_data s' = fld b_data s \<and> fld b_dev s' = fld b_dev s \<and> fld b_block s' = fld b_block s
    \<and> fld b_size s' = fld b_size s
    \<and> fld b_prev_hash s' = fld b_prev_hash s \<and> fld b_next_hash s' = fld b_next_hash s
    \<and> fld b_prev_free s' = fld b_prev_free s \<and> fld b_next_free s' = fld b_next_free s
    \<and> buffer_hash_table s' = buffer_hash_table s \<and> buffer_head s' = buffer_head s
    \<and> kstat_buffers s' = kstat_buffers s
    \<and> devices s' = devices s \<and> mem s' = mem s
    \<and> page_table s' = page_table s \<and> page_head s' = page_head s
    \<and> page_hash_table s' = page_hash_table s \<and> kstat_cached s' = kstat_cached s
    \<and> kstat_free_pages s' = kstat_free_pages s"
proof -
  have id: "fld b_flags s = (fld b_flags s)(buf := map_option (\<lambda>X. X - {}) (fld b_flags s buf))"
    by (rule ext) (simp add: option.map_ident)
  have nochange: ?thesis if "s' = s\<lparr>io_log := io_log s @ w\<rparr>"
    and "w = [] \<or> (\<exists>a b c d. w = [WriteBlock a b c d])" for w
    using that id by (auto intro!: exI[of _ "{}"])
  from assms obtain b where b: "bget s (Some buf) = Some b"
    unfolding sync_one_buffer_def by (auto simp: bind_eq_Some_conv)
  let ?w = "[WriteBlock (b_dev b) (b_block b) (b_data b) (b_size b)]"
  consider (nodev) "devices s (b_dev b) = None"
    | (nomethod) d where "devices s (b_dev b) = Some d" "write_block d = None"
    | (fail) d wr where "devices s (b_dev b) = Some d" "write_block d = Some wr" "wr (b_block b) < 0"
    | (ok) d wr where "devices s (b_dev b) = Some d" "write_block d = Some wr" "\<not> wr (b_block b) < 0"
    by (cases "devices s (b_dev b)"; cases "write_block (the (devices s (b_dev b)))") auto
  then show ?thesis
  proof cases
    case nodev
    with assms b have "s' = s\<lparr>io_log := io_log s @ []\<rparr>" by (simp add: sync_one_buffer_def)
    then show ?thesis by (rule nochange) simp
  next
    case nomethod
    with assms b have "s' = s\<lparr>io_log := io_log s @ []\<rparr>" by (simp add: sync_one_buffer_def)
    then show ?thesis by (rule nochange) simp
  next
    case fail
    with assms b have "s' = s\<lparr>io_log := io_log s @ ?w\<rparr>" by (simp add: sync_one_buffer_def Let_def)
    then show ?thesis by (rule nochange) blast
  next
    case ok
    with assms b obtain fr where
      rm: "remove_from_dirty_list buf (device_written b fr (s\<lparr>io_log := io_log s @ ?w\<rparr>)) = Some s'"
      by (auto simp: sync_one_buffer_def Let_def bind_eq_Some_conv)
    define s1 where "s1 = device_written b fr (s\<lparr>io_log := io_log s @ ?w\<rparr>)"
    note V = V_dirtyD[OF remove_from_dirty_list_V[OF rm[folded s1_def]]]
    have f1: "\<And>g. fld g s1 = fld g s" by (rule ext) (simp add: s1_def device_written_def fld_def bget_def)
    have o1: "io_log s1 = io_log s @ ?w" "length (buffer_table s1) = length (buffer_table s)"
      "buffer_hash_table s1 = buffer_hash_table s" "buffer_head s1 = buffer_head s"
      "kstat_buffers s1 = kstat_buffers s" "devices s1 = devices s" "mem s1 = mem s"
      "page_table s1 = page_table s" "page_head s1 = page_head s"
      "page_hash_table s1 = page_hash_table s" "kstat_cached s1 = kstat_cached s"
      "kstat_free_pages s1 = kstat_free_pages s"
      by (simp_all add: s1_def device_written_def)
    have "io_log s' = io_log s @ ?w" using V by (simp add: o1)
    moreover have "fld b_flags s' = (fld b_flags s)(buf := map_option (\<lambda>X. X - {BUFFER_DIRTY}) (fld b_flags s buf))"
      using V by (simp add: f1)
    ultimately show ?thesis
      using V by (auto simp: fld_bupd_same f1 o1 intro!: exI[of _ "{BUFFER_DIRTY}"])
  qed
qed

lemma hframe_refl [simp]: "hframe s s" by (simp add: hframe_def)

lemma hframe_trans: "hframe a b \<Longrightarrow> hframe b c \<Longrightarrow> hframe a c"
  by (simp add: hframe_def)

lemma hframeD:
  assumes "hframe s s'"
  shows "chain_of s' = chain_of s" "hash_ok s' = hash_ok s" "in_hash s' = in_hash s"
proof -
  from assms have "chain_of s' = chain_of s \<and> hash_ok s' = hash_ok s \<and> in_hash s' = in_hash s"
    unfolding hframe_def by (intro hash_frame blink_cong) simp_all
  then show "chain_of s' = chain_of s" "hash_ok s' = hash_ok s" "in_hash s' = in_hash s"
    by simp_all
qed

lemma hframe_flags [simp]:
  "hframe s (bupd i (set_flags F) s)" "hframe s (bupd i (clear_flags F) s)"
  by (simp_all add: hframe_def fld_bupd_same)

lemma hframe_V_free: "V_free s' = V_free s \<Longrightarrow> hframe s s'"
  by (drule V_freeD) (simp add: hframe_def)

lemma hframe_V_dirty: "V_dirty s' = V_dirty s \<Longrightarrow> hframe s s'"
  by (drule V_dirtyD) (simp add: hframe_def)

lemma hframe_V_pages:
  assumes "V_pages s' = V_pages s"
  shows "hframe s s'"
  using V_pagesD[OF assms] V_pages_fld[OF assms, of b_next_hash] V_pages_fld[OF assms, of b_prev_hash]
    V_pages_fld[OF assms, of b_dev] V_pages_fld[OF assms, of b_block] V_pages_fld[OF assms, of b_size]
  by (simp add: hframe_def)

lemma search_hframe:
  assumes "hframe s s'" and ok: "hash_ok s"
  shows "search_buffer_hash d b z s' = search_buffer_hash d b z s"
proof (cases "BUFFER_HASH d b s < length (buffer_hash_table s)")
  case False
  with assms show ?thesis
    by (simp add: search_buffer_hash_def slot_get_def hframe_def BUFFER_HASH_def)
next
  case True
  let ?k = "BUFFER_HASH d b s"
  have k': "BUFFER_HASH d b s' = ?k" using assms(1) by (simp add: hframe_def BUFFER_HASH_def)
  have c: "chain s ?k (chain_of s ?k)" by (rule hash_okD[OF ok True])
  have "hash_ok s'" using hframeD[OF assms(1)] ok by simp
  then have c': "chain s' ?k (chain_of s ?k)"
    using hash_okD[of s' ?k] True hframeD[OF assms(1)] assms(1) by (simp add: hframe_def)
  have eq: "\<And>x. x \<in> set (chain_of s ?k) \<Longrightarrow>
      (b_dev (buffer_table s' ! x) = d \<and> b_block (buffer_table s' ! x) = b \<and> b_size (buffer_table s' ! x) = z)
    = (b_dev (buffer_table s ! x) = d \<and> b_block (buffer_table s ! x) = b \<and> b_size (buffer_table s ! x) = z)"
  proof -
    fix x assume "x \<in> set (chain_of s ?k)"
    then have x: "x < length (buffer_table s)" using chain_valid[OF c] by simp
    have x': "x < length (buffer_table s')" using x assms(1) by (simp add: hframe_def)
    have "fld b_dev s' x = fld b_dev s x" "fld b_block s' x = fld b_block s x" "fld b_size s' x = fld b_size s x"
      using assms(1) by (simp_all add: hframe_def)
    then show "(b_dev (buffer_table s' ! x) = d \<and> b_block (buffer_table s' ! x) = b \<and> b_size (buffer_table s' ! x) = z)
    = (b_dev (buffer_table s ! x) = d \<and> b_block (buffer_table s ! x) = b \<and> b_size (buffer_table s ! x) = z)"
      by (simp add: fld_in[OF x] fld_in[OF x'])
  qed
  have "search_buffer_hash d b z s' = Some (find (\<lambda>x. b_dev (buffer_table s' ! x) = d
        \<and> b_block (buffer_table s' ! x) = b \<and> b_size (buffer_table s' ! x) = z) (chain_of s ?k))"
    using search_buffer_hash_chain[of s' d b "chain_of s ?k" z] c' True assms(1)
    by (simp add: k' hframe_def)
  also have "\<dots> = Some (find (\<lambda>x. b_dev (buffer_table s ! x) = d
        \<and> b_block (buffer_table s ! x) = b \<and> b_size (buffer_table s ! x) = z) (chain_of s ?k))"
    using eq by (simp cong: find_cong)
  also have "\<dots> = search_buffer_hash d b z s"
    using search_buffer_hash_chain[OF c True, of z] by simp
  finally show ?thesis .
qed

lemma inval_rel_refl: "hash_ok s \<Longrightarrow> inval_rel s s"
  by (simp add: inval_rel_def)

lemma inval_rel_trans: "inval_rel a b \<Longrightarrow> inval_rel b c \<Longrightarrow> inval_rel a c"
  by (simp add: inval_rel_def)

lemma buffer_wait_effect:
  assumes "buffer_wait n s = Some s'"
  shows "n < length (buffer_table s) \<and> \<not> flag_on s n BUFFER_LOCKED
     \<and> s' = bupd n (set_flags {BUFFER_LOCKED}) s"
  using assms unfolding buffer_wait_def
  by (auto simp: bind_eq_Some_conv bset_Some_iff flag_on_def dest!: bgetD split: if_splits)

lemma flag_on_bupd:
  "flag_on (bupd i (set_flags F) s) x f = (if x = i then i < length (buffer_table s) \<and> (flag_on s i f \<or> f \<in> F) else flag_on s x f)"
  "flag_on (bupd i (clear_flags F) s) x f = (if x = i then flag_on s i f \<and> f \<notin> F else flag_on s x f)"
  by (auto simp: flag_on_def fld_def bget_def split: if_splits)

lemma flag_on_cong: "fld b_flags s' = fld b_flags s \<Longrightarrow> flag_on s' = flag_on s"
  by (intro ext) (simp add: flag_on_def)

lemma invalidate_step:
  assumes ok: "hash_ok s" and w: "buffer_wait n s = Some sa" and r: "remove_from_hash n sa = Some sb"
  defines "s1 \<equiv> bupd n (clear_flags {BUFFER_VALID, BUFFER_LOCKED}) sb"
  shows "inval_rel s s1 \<and> \<not> in_hash s1 n \<and> \<not> flag_on s1 n BUFFER_VALID"
proof -
  note W = buffer_wait_effect[OF w]
  then have sa: "sa = bupd n (set_flags {BUFFER_LOCKED}) s" and n: "n < length (buffer_table s)"
    and ul: "\<not> flag_on s n BUFFER_LOCKED" by simp_all
  have h1: "hframe s sa" by (simp add: sa)
  then have oka: "hash_ok sa" using ok hframeD by simp
  note R = remove_from_hash_chains[OF oka r]
  note V = V_hashD[OF remove_from_hash_V[OF r]]
  have h3: "hframe sb s1" by (simp add: s1_def)
  have ok1: "hash_ok s1" using R hframeD[OF h3] by simp
  have lh: "length (buffer_hash_table sa) = length (buffer_hash_table s)" by (simp add: sa)
  have in1: "in_hash s1 x \<longleftrightarrow> in_hash s x \<and> x \<noteq> n" for x
  proof -
    have "in_hash s1 x = in_hash sb x" using hframeD[OF h3] by simp
    also have "\<dots> \<longleftrightarrow> (\<exists>k < length (buffer_hash_table s). x \<in> set (removeAll n (chain_of sa k)))"
      using R V lh by (auto simp: in_hash_chain_of)
    also have "\<dots> \<longleftrightarrow> in_hash sa x \<and> x \<noteq> n"
      using lh by (auto simp: in_hash_chain_of)
    also have "in_hash sa x = in_hash s x" using hframeD[OF h1] by simp
    finally show ?thesis .
  qed
  have fl: "flag_on s1 x f = (if x = n then flag_on s n f \<and> f \<noteq> BUFFER_VALID \<and> f \<noteq> BUFFER_LOCKED else flag_on s x f)" for x f
  proof -
    have "flag_on sb = flag_on sa" using V by (intro flag_on_cong) simp
    then show ?thesis using n by (auto simp: s1_def sa flag_on_bupd)
  qed
  have keys: "fld b_dev s1 = fld b_dev s" "fld b_block s1 = fld b_block s" "fld b_size s1 = fld b_size s"
    using V by (simp_all add: s1_def sa fld_bupd_same)
  have rest: "length (buffer_table s1) = length (buffer_table s)"
    "length (buffer_hash_table s1) = length (buffer_hash_table s)"
    "io_log s1 = io_log s" "devices s1 = devices s"
    using V by (simp_all add: s1_def sa)
  show ?thesis
    unfolding inval_rel_def using ok1 keys rest in1 fl ul by auto
qed

lemma invalidate_loop_inv:
  assumes "hash_ok s" and "invalidate_loop ns d s = Some s'"
  shows "inval_rel s s' \<and> (\<forall>x \<in> set ns. fld b_dev s x = Some d \<and> \<not> flag_on s x BUFFER_LOCKED
            \<longrightarrow> \<not> in_hash s' x \<and> \<not> flag_on s' x BUFFER_VALID)"
  using assms
proof (induction ns arbitrary: s)
  case Nil
  then show ?case by (simp add: inval_rel_refl)
next
  case (Cons n ns)
  from Cons.prems(2) obtain b s1 where b: "bget s (Some n) = Some b"
    and st: "(if BUFFER_LOCKED \<notin> b_flags b \<and> b_dev b = d
            then do {
              s1 \<leftarrow> buffer_wait n s;
              s2 \<leftarrow> remove_from_hash n s1;
              bset (Some n) (clear_flags {BUFFER_VALID, BUFFER_LOCKED}) s2 }
            else Some s) = Some s1"
    and lp: "invalidate_loop ns d s1 = Some s'"
    by (auto simp: bind_eq_Some_conv)
  note B = bgetD[OF b]
  have cond: "(BUFFER_LOCKED \<notin> b_flags b \<and> b_dev b = d)
      \<longleftrightarrow> (fld b_dev s n = Some d \<and> \<not> flag_on s n BUFFER_LOCKED)"
    using B by (auto simp: flag_on_def)
  have step: "inval_rel s s1 \<and> (fld b_dev s n = Some d \<and> \<not> flag_on s n BUFFER_LOCKED
        \<longrightarrow> \<not> in_hash s1 n \<and> \<not> flag_on s1 n BUFFER_VALID)"
  proof (cases "BUFFER_LOCKED \<notin> b_flags b \<and> b_dev b = d")
    case False
    with st have "s1 = s" by (simp split: if_splits)
    moreover from False cond have "\<not> (fld b_dev s n = Some d \<and> \<not> flag_on s n BUFFER_LOCKED)" by blast
    ultimately show ?thesis using inval_rel_refl[OF Cons.prems(1)] by blast
  next
    case True
    with st obtain sa sb where "buffer_wait n s = Some sa" "remove_from_hash n sa = Some sb"
      "s1 = bupd n (clear_flags {BUFFER_VALID, BUFFER_LOCKED}) sb"
      by (auto simp: bind_eq_Some_conv bset_Some_iff)
    with invalidate_step[OF Cons.prems(1)] show ?thesis by simp
  qed
  then have r1: "inval_rel s s1" by simp
  then have ok1: "hash_ok s1" by (simp add: inval_rel_def)
  note IH = Cons.IH[OF ok1 lp]
  then have r2: "inval_rel s1 s'" by simp
  have "inval_rel s s'" using r1 r2 by (rule inval_rel_trans)
  moreover have "\<not> in_hash s' x \<and> \<not> flag_on s' x BUFFER_VALID"
    if "x \<in> set (n # ns)" "fld b_dev s x = Some d" "\<not> flag_on s x BUFFER_LOCKED" for x
  proof (cases "x = n")
    case True
    with step that have "\<not> in_hash s1 n \<and> \<not> flag_on s1 n BUFFER_VALID" by simp
    with r2 True show ?thesis by (auto simp: inval_rel_def)
  next
    case False
    with that have "x \<in> set ns" by simp
    moreover have "fld b_dev s1 x = Some d" "\<not> flag_on s1 x BUFFER_LOCKED"
      using r1 that by (simp_all add: inval_rel_def)
    ultimately show ?thesis using IH by blast
  qed
  ultimately show ?case by blast
qed

lemma get_free_buffer_effect:
  assumes "get_free_buffer s = Some (g, s1)"
  shows "(g = None \<and> s1 = s) \<or> (\<exists>buf. g = Some buf \<and> buffer_head s = Some buf
      \<and> buf < length (buffer_table s) \<and> \<not> flag_on s buf BUFFER_LOCKED \<and> hframe s s1
      \<and> fld b_flags s1 = (fld b_flags s)(buf := map_option (\<lambda>X. X \<union> {BUFFER_LOCKED}) (fld b_flags s buf))
      \<and> fld b_data s1 = fld b_data s
      \<and> io_log s1 = io_log s \<and> devices s1 = devices s \<and> kstat_buffers s1 = kstat_buffers s)"
proof (cases "buffer_head s")
  case None
  with assms show ?thesis by (simp add: get_free_buffer_def)
next
  case (Some buf)
  from get_free_buffer_head[OF assms Some] obtain sa where g: "g = Some buf"
    and sa: "V_free sa = V_free s" and len: "buf < length (buffer_table sa)"
    and s1: "s1 = bupd buf (set_flags {BUFFER_LOCKED}) sa" by blast
  note V = V_freeD[OF sa]
  from assms Some have "\<not> flag_on s buf BUFFER_LOCKED"
    unfolding get_free_buffer_def
    by (auto simp: bind_eq_Some_conv flag_on_def dest!: bgetD split: if_splits)
  moreover have "hframe s s1"
    using hframe_trans[OF hframe_V_free[OF sa]] by (simp add: s1)
  ultimately show ?thesis
    using g Some len V by (simp add: s1 fld_bupd_same)
qed

lemma getblk_reuse_effect:
  assumes "getblk_reuse buf dev block sz s = Some (r, s')"
  shows "devices s' = devices s \<and> (\<exists>w. io_log s' = io_log s @ w \<and> write_or_nothing w
      \<and> (r = None \<and> w = [] \<or> r = Some buf \<and> buf < length (buffer_table s') \<and> \<not> flag_on s' buf BUFFER_VALID))"
proof -
  from assms obtain b where b: "bget s (Some buf) = Some b"
    unfolding getblk_reuse_def by (auto simp: bind_eq_Some_conv)
  have rebind: ?thesis
    if rb: "getblk_rebind buf dev block sz s2 = Some (r, s')" and d2: "devices s2 = devices s"
      and l2: "io_log s2 = io_log s @ w" and w: "write_or_nothing w" for s2 w
  proof -
    note E = getblk_rebind_effect[OF rb]
    from E have "\<not> flag_on s' buf BUFFER_VALID"
      by (auto simp: flag_on_def split: option.splits)
    with E d2 l2 w show ?thesis by auto
  qed
  consider (dirty) "BUFFER_DIRTY \<in> b_flags b"
    | (nodata) "BUFFER_DIRTY \<notin> b_flags b" "b_data b = None"
    | (plain) "BUFFER_DIRTY \<notin> b_flags b" "b_data b \<noteq> None" by blast
  then show ?thesis
  proof cases
    case dirty
    with assms b obtain s2 where sy: "sync_one_buffer buf s = Some s2"
      and rb: "getblk_rebind buf dev block sz s2 = Some (r, s')"
      by (auto simp: getblk_reuse_def bind_eq_Some_conv)
    from sync_one_buffer_effect[OF sy] obtain w where "io_log s2 = io_log s @ w" "write_or_nothing w"
      "devices s2 = devices s" by (auto simp: write_or_nothing_def)
    with rebind[OF rb] show ?thesis by blast
  next
    case plain
    with assms b have "getblk_rebind buf dev block sz s = Some (r, s')"
      by (auto simp: getblk_reuse_def)
    from rebind[OF this, of "[]"] show ?thesis by (simp add: write_or_nothing_def)
  next
    case nodata
    with assms b obtain a s2 where km: "kmalloc s = Some (a, s2)"
      and rest: "(case a of
                 None \<Rightarrow> do { s3 \<leftarrow> brelse buf s2; Some (None, s3) }
               | Some fr \<Rightarrow> do {
                   s3 \<leftarrow> bset (Some buf) (\<lambda>x. x\<lparr>b_data := Some fr\<rparr>) s2;
                   getblk_rebind buf dev block sz
                     (s3\<lparr>kstat_buffers := kstat_buffers s3 + int (PAGE_SIZE div 1024)\<rparr>) }) = Some (r, s')"
      by (auto simp: getblk_reuse_def bind_eq_Some_conv)
    note K = V_pagesD[OF kmalloc_V[OF km]]
    show ?thesis
    proof (cases a)
      case None
      with rest obtain s3 where "brelse buf s2 = Some s3" "r = None" "s' = s3"
        by (auto simp: bind_eq_Some_conv)
      with brelse_effect[of buf s2 s3] K show ?thesis by (simp add: write_or_nothing_def)
    next
      case (Some fr)
      with rest obtain s3 where s3: "bset (Some buf) (\<lambda>x. x\<lparr>b_data := Some fr\<rparr>) s2 = Some s3"
        and rb: "getblk_rebind buf dev block sz
                     (s3\<lparr>kstat_buffers := kstat_buffers s3 + int (PAGE_SIZE div 1024)\<rparr>) = Some (r, s')"
        by (auto simp: bind_eq_Some_conv)
      from s3 K have "devices s3 = devices s" "io_log s3 = io_log s @ []"
        by (auto simp: bset_Some_iff)
      with rebind[OF rb, of "[]"] show ?thesis by (simp add: write_or_nothing_def)
    qed
  qed
qed

subsection \<open>Reclaiming buffers\<close>

lemma data_of_fld: "data_of s i = (case fld b_data s i of None \<Rightarrow> None | Some d \<Rightarrow> d)"
  by (simp add: data_of_def fld_def split: option.splits)

lemma data_of_range: "data_of s i \<noteq> None \<Longrightarrow> i < length (buffer_table s)"
  by (auto simp: data_of_def bget_def split: option.splits if_splits)

lemma freed_iff: "freed s s' = {i. data_of s i \<noteq> None \<and> data_of s' i = None}"
  using data_of_range by (auto simp: freed_def)

lemma freed_finite: "finite (freed s s')"
proof -
  have "freed s s' \<subseteq> {..<length (buffer_table s)}"
    using data_of_range by (auto simp: freed_iff)
  then show ?thesis by (rule finite_subset) simp
qed

lemma reclaim_rel_trans:
  assumes ab: "reclaim_rel a b m" and bc: "reclaim_rel b c k"
  shows "reclaim_rel a c (m + k)"
proof -
  have un: "freed a c = freed a b \<union> freed b c"
    using ab bc unfolding reclaim_rel_def freed_iff
    by (auto; metis)
  have dj: "freed a b \<inter> freed b c = {}" by (auto simp: freed_iff)
  have "card (freed a c) = m + k"
    using ab bc by (simp add: un card_Un_disjoint[OF freed_finite freed_finite dj] reclaim_rel_def)
  moreover have "\<forall>i. data_of c i = data_of a i
            \<or> (data_of a i \<noteq> None \<and> data_of c i = None \<and> \<not> has_flag a i BUFFER_LOCKED
                \<and> \<not> in_hash c i)"
    using ab bc unfolding reclaim_rel_def by (metis)
  ultimately show ?thesis
    using ab bc unfolding reclaim_rel_def by auto
qed

lemma hframe_kstat [simp]: "hframe s (s\<lparr>kstat_buffers := k\<rparr>)"
  by (simp add: hframe_def fld_def bget_def fun_eq_iff)

lemma hframe_data [simp]: "hframe s (bupd i (b_data_update f) s)"
  by (simp add: hframe_def fld_bupd_same)

lemma sync_one_buffer_hframe: "sync_one_buffer buf s = Some s' \<Longrightarrow> hframe s s'"
  by (drule sync_one_buffer_effect) (simp add: hframe_def)

lemma brelse_hframe: "brelse buf s = Some s' \<Longrightarrow> hframe s s'"
  by (drule brelse_effect) (simp add: hframe_def)

lemma reclaim_rel_same:
  assumes ok: "hash_ok s" and hf: "hframe s s'"
    and fl: "\<And>i. flag_on s' i BUFFER_LOCKED = flag_on s i BUFFER_LOCKED"
    and da: "fld b_data s' = fld b_data s"
  shows "reclaim_rel s s' 0"
proof -
  have "data_of s' = data_of s" by (rule ext) (simp add: data_of_fld da)
  then have "freed s s' = {}" by (auto simp: freed_iff)
  then show ?thesis
    using ok hframeD[OF hf] hf fl \<open>data_of s' = data_of s\<close>
    by (simp add: reclaim_rel_def has_flag_flag_on hframe_def)
qed

lemma reclaim_rel_one:
  assumes ok': "hash_ok s'" and len: "length (buffer_table s') = length (buffer_table s)"
    and fl: "\<And>i. flag_on s' i BUFFER_LOCKED = flag_on s i BUFFER_LOCKED"
    and ul: "\<not> flag_on s buf BUFFER_LOCKED"
    and da: "fld b_data s' = (fld b_data s)(buf := Some None)"
    and had: "fld b_data s buf = Some (Some fr)"
    and ih: "\<And>x. in_hash s' x \<longleftrightarrow> in_hash s x \<and> x \<noteq> buf"
  shows "reclaim_rel s s' 1"
proof -
  have d: "data_of s' i = (if i = buf then None else data_of s i)" for i
    by (simp add: data_of_fld da)
  have "data_of s buf = Some fr" by (simp add: data_of_fld had)
  then have "freed s s' = {buf}" by (auto simp: freed_iff d)
  then show ?thesis
    using ok' len fl ul d ih \<open>data_of s buf = Some fr\<close>
    by (simp add: reclaim_rel_def has_flag_flag_on)
qed

lemma reclaim_body_effect:
  assumes ok: "hash_ok s" and body: "reclaim_body R rec first s = Some out"
  shows "(\<exists>s'. out = Inl (rec, s') \<and> reclaim_rel s s' 0)
       \<or> (\<exists>f s'. out = Inr (rec, f, s') \<and> reclaim_rel s s' 0)
       \<or> (\<exists>s'. out = Inl (rec + 1, s') \<and> rec + 1 = R \<and> reclaim_rel s s' 1)
       \<or> (\<exists>f s'. out = Inr (rec + 1, f, s') \<and> rec + 1 \<noteq> R \<and> reclaim_rel s s' 1)"
proof -
  from body obtain g s1 where gf: "get_free_buffer s = Some (g, s1)"
    and r1: "(case g of None \<Rightarrow> None
     | Some buf \<Rightarrow> do {
         b \<leftarrow> bget s1 (Some buf);
         s2 \<leftarrow> (if BUFFER_DIRTY \<in> b_flags b then sync_one_buffer buf s1 else Some s1);
         s3 \<leftarrow> bset (Some buf) (set_flags {BUFFER_VALID}) s2;
         if first = Some buf then do { s4 \<leftarrow> brelse buf s3; Some (Inl (rec, s4)) }
         else do {
           let first' = (case first of None \<Rightarrow> Some buf | Some f \<Rightarrow> Some f);
           b3 \<leftarrow> bget s3 (Some buf);
           case b_data b3 of
             None \<Rightarrow> do { s4 \<leftarrow> brelse buf s3; Some (Inr (rec, first', s4)) }
           | Some fr \<Rightarrow> do {
               s4 \<leftarrow> kfree fr s3;
               s5 \<leftarrow> bset (Some buf) (\<lambda>x. x\<lparr>b_data := None\<rparr>) s4;
               s6 \<leftarrow> remove_from_hash buf s5;
               let s7 = s6\<lparr>kstat_buffers := kstat_buffers s6 - int (PAGE_SIZE div 1024)\<rparr>;
               s8 \<leftarrow> brelse buf s7;
               if rec + 1 = R then Some (Inl (rec + 1, s8))
               else Some (Inr (rec + 1, first', s8)) } } }) = Some out"
    unfolding reclaim_body_def by (auto simp: bind_eq_Some_conv)
  from r1 obtain buf where g: "g = Some buf" by (cases g) auto
  from get_free_buffer_effect[OF gf] g have len: "buf < length (buffer_table s)"
    and ul: "\<not> flag_on s buf BUFFER_LOCKED" and h1: "hframe s s1"
    and f1: "fld b_flags s1 = (fld b_flags s)(buf := map_option (\<lambda>X. X \<union> {BUFFER_LOCKED}) (fld b_flags s buf))"
    and d1: "fld b_data s1 = fld b_data s"
    by auto
  from r1 g obtain b s2 where b: "bget s1 (Some buf) = Some b"
    and sy: "(if BUFFER_DIRTY \<in> b_flags b then sync_one_buffer buf s1 else Some s1) = Some s2"
    and r2: "(if first = Some buf
         then do { s4 \<leftarrow> brelse buf (bupd buf (set_flags {BUFFER_VALID}) s2); Some (Inl (rec, s4)) }
         else do {
           let first' = (case first of None \<Rightarrow> Some buf | Some f \<Rightarrow> Some f);
           b3 \<leftarrow> bget (bupd buf (set_flags {BUFFER_VALID}) s2) (Some buf);
           case b_data b3 of
             None \<Rightarrow> do { s4 \<leftarrow> brelse buf (bupd buf (set_flags {BUFFER_VALID}) s2); Some (Inr (rec, first', s4)) }
           | Some fr \<Rightarrow> do {
               s4 \<leftarrow> kfree fr (bupd buf (set_flags {BUFFER_VALID}) s2);
               s5 \<leftarrow> bset (Some buf) (\<lambda>x. x\<lparr>b_data := None\<rparr>) s4;
               s6 \<leftarrow> remove_from_hash buf s5;
               let s7 = s6\<lparr>kstat_buffers := kstat_buffers s6 - int (PAGE_SIZE div 1024)\<rparr>;
               s8 \<leftarrow> brelse buf s7;
               if rec + 1 = R then Some (Inl (rec + 1, s8))
               else Some (Inr (rec + 1, first', s8)) } }) = Some out"
    by (auto simp: bind_eq_Some_conv bset_Some_iff)
  define s3 where "s3 = bupd buf (set_flags {BUFFER_VALID}) s2"
  have "\<exists>F. hframe s1 s2 \<and> fld b_data s2 = fld b_data s1
      \<and> fld b_flags s2 = (fld b_flags s1)(buf := map_option (\<lambda>X. X - F) (fld b_flags s1 buf))
      \<and> F \<subseteq> {BUFFER_DIRTY}"
  proof (cases "BUFFER_DIRTY \<in> b_flags b")
    case True
    with sy have "sync_one_buffer buf s1 = Some s2" by simp
    from sync_one_buffer_effect[OF this] sync_one_buffer_hframe[OF this] show ?thesis by auto
  next
    case False
    with sy have "s2 = s1" by simp
    then show ?thesis by (auto intro!: exI[of _ "{}"] simp: fun_eq_iff option.map_ident)
  qed
  then obtain F where h2: "hframe s1 s2" and d2: "fld b_data s2 = fld b_data s1"
    and f2: "fld b_flags s2 = (fld b_flags s1)(buf := map_option (\<lambda>X. X - F) (fld b_flags s1 buf))"
    and F: "F \<subseteq> {BUFFER_DIRTY}" by blast
  have h3: "hframe s s3" using hframe_trans[OF hframe_trans[OF h1 h2]] by (simp add: s3_def)
  have d3: "fld b_data s3 = fld b_data s" by (simp add: s3_def fld_bupd_same d2 d1)
  have l3: "length (buffer_table s3) = length (buffer_table s)" using h3 by (simp add: hframe_def)
  have fl3: "flag_on s3 i BUFFER_LOCKED = (if i = buf then True else flag_on s i BUFFER_LOCKED)" for i
    using F len by (auto simp: s3_def f2 f1 flag_on_def fld_in)
  have after_brelse: "reclaim_rel s s4 0" if br: "brelse buf s3 = Some s4" for s4
  proof (rule reclaim_rel_same[OF ok])
    note B = brelse_effect[OF br]
    show "hframe s s4" using hframe_trans[OF h3 brelse_hframe[OF br]] .
    show "fld b_data s4 = fld b_data s" using B d3 by simp
    show "flag_on s4 i BUFFER_LOCKED = flag_on s i BUFFER_LOCKED" for i
      using B fl3[of i] ul by (auto simp: flag_on_def split: if_splits)
  qed
  show ?thesis
  proof (cases "first = Some buf")
    case True
    with r2 obtain s4 where "brelse buf s3 = Some s4" "out = Inl (rec, s4)"
      by (auto simp: bind_eq_Some_conv s3_def)
    with after_brelse show ?thesis by blast
  next
    case False
    have b3: "bget s3 (Some buf) = Some (buffer_table s3 ! buf)"
      using len l3 by (intro bget_in) simp
    show ?thesis
    proof (cases "b_data (buffer_table s3 ! buf)")
      case None
      with r2 False b3 obtain s4 f where "brelse buf s3 = Some s4" "out = Inr (rec, f, s4)"
        by (auto simp: bind_eq_Some_conv s3_def Let_def)
      with after_brelse show ?thesis by blast
    next
      case (Some fr)
      with r2 False b3 obtain s4 s5 s6 s8 where kf: "kfree fr s3 = Some s4"
        and s5: "bset (Some buf) (\<lambda>x. x\<lparr>b_data := None\<rparr>) s4 = Some s5"
        and rm: "remove_from_hash buf s5 = Some s6"
        and br: "brelse buf (s6\<lparr>kstat_buffers := kstat_buffers s6 - int (PAGE_SIZE div 1024)\<rparr>) = Some s8"
        and out: "out = (if rec + 1 = R then Inl (rec + 1, s8)
               else Inr (rec + 1, (case first of None \<Rightarrow> Some buf | Some f \<Rightarrow> Some f), s8))"
        by (auto simp: bind_eq_Some_conv s3_def Let_def split: if_splits)
      have had: "fld b_data s buf = Some (Some fr)"
        using Some d3 len l3 by (metis fld_in)
      note K = kfree_V[OF kf]
      have h4: "hframe s3 s4" by (rule hframe_V_pages[OF K])
      have fd4: "fld b_flags s4 = fld b_flags s3" "fld b_data s4 = fld b_data s3"
        by (rule V_pages_fld[OF K])+
      from s5 have s5': "s5 = bupd buf (b_data_update (\<lambda>_. None)) s4" and l4: "buf < length (buffer_table s4)"
        by (auto simp: bset_Some_iff)
      have h5: "hframe s s5" using hframe_trans[OF hframe_trans[OF h3 h4]] by (simp add: s5')
      then have ok5: "hash_ok s5" using ok hframeD by simp
      note RM = remove_from_hash_chains[OF ok5 rm]
      note V6 = V_hashD[OF remove_from_hash_V[OF rm]]
      define s7 where "s7 = s6\<lparr>kstat_buffers := kstat_buffers s6 - int (PAGE_SIZE div 1024)\<rparr>"
      have h7: "hframe s6 s7" by (simp add: s7_def)
      note B = brelse_effect[OF br[folded s7_def]]
      have h8: "hframe s6 s8" using hframe_trans[OF h7 brelse_hframe[OF br[folded s7_def]]] .
      have ok8: "hash_ok s8" using RM hframeD[OF h8] by simp
      have ih: "in_hash s8 x \<longleftrightarrow> in_hash s x \<and> x \<noteq> buf" for x
      proof -
        have "in_hash s8 x = in_hash s6 x" using hframeD[OF h8] by simp
        also have "\<dots> \<longleftrightarrow> (\<exists>k < length (buffer_hash_table s5). x \<in> set (removeAll buf (chain_of s5 k)))"
          using RM V6 by (auto simp: in_hash_chain_of)
        also have "\<dots> \<longleftrightarrow> in_hash s5 x \<and> x \<noteq> buf"
          by (auto simp: in_hash_chain_of)
        also have "in_hash s5 x = in_hash s x" using hframeD[OF h5] by simp
        finally show ?thesis .
      qed
      have f7: "\<And>g. fld g s7 = fld g s6" by (rule ext) (simp add: s7_def fld_def bget_def)
      have d8: "fld b_data s8 = (fld b_data s)(buf := Some None)"
        using B V6 l4 by (simp add: f7 s5' fld_bupd_data fd4 d3)
      have fl8: "flag_on s8 i BUFFER_LOCKED = flag_on s i BUFFER_LOCKED" for i
      proof -
        have "fld b_flags s7 = fld b_flags s3"
          using V6 by (simp add: f7 s5' fld_bupd_same fd4)
        then show ?thesis
          using B fl3[of i] ul by (auto simp: flag_on_def split: if_splits)
      qed
      have l8: "length (buffer_table s8) = length (buffer_table s)"
        using h8 h5 V6 by (simp add: hframe_def)
      have "reclaim_rel s s8 1"
        by (rule reclaim_rel_one[OF ok8 l8 fl8 ul d8 had ih])
      with out show ?thesis by auto
    qed
  qed
qed

lemma reclaim_loop_rel:
  assumes "reclaim_loop R rec first s = Some (n, s')" and "rec < R" and "hash_ok s"
  shows "rec \<le> n \<and> n \<le> R \<and> reclaim_rel s s' (n - rec)"
proof -
  have "rec < R \<longrightarrow> hash_ok s \<longrightarrow> rec \<le> fst (n, s') \<and> fst (n, s') \<le> R
      \<and> reclaim_rel s (snd (n, s')) (fst (n, s') - rec)"
  proof (rule reclaim_loop.raw_induct[where P="\<lambda>R rec first s res.
      rec < R \<longrightarrow> hash_ok s \<longrightarrow> rec \<le> fst res \<and> fst res \<le> R \<and> reclaim_rel s (snd res) (fst res - rec)",
      OF _ assms(1)], goal_cases)
    case (1 loop R rec first s res)
    show ?case
    proof (intro impI)
      assume lt: "rec < R" and ok: "hash_ok s"
      from 1(2) obtain out where body: "reclaim_body R rec first s = Some out"
        and rest: "(case out of Inl result \<Rightarrow> Some result
            | Inr (reclaimed', first', s') \<Rightarrow> loop R reclaimed' first' s') = Some res"
        by (auto simp: bind_eq_Some_conv)
      from reclaim_body_effect[OF ok body]
      consider (stop0) s1 where "out = Inl (rec, s1)" "reclaim_rel s s1 0"
        | (go0) f s1 where "out = Inr (rec, f, s1)" "reclaim_rel s s1 0"
        | (stop1) s1 where "out = Inl (rec + 1, s1)" "rec + 1 = R" "reclaim_rel s s1 1"
        | (go1) f s1 where "out = Inr (rec + 1, f, s1)" "rec + 1 \<noteq> R" "reclaim_rel s s1 1"
        by blast
      then show "rec \<le> fst res \<and> fst res \<le> R \<and> reclaim_rel s (snd res) (fst res - rec)"
      proof cases
        case stop0
        with rest lt show ?thesis by auto
      next
        case stop1
        with rest lt show ?thesis by auto
      next
        case go0
        with rest have lp: "loop R rec f s1 = Some res" by simp
        from go0 have ok1: "hash_ok s1" by (simp add: reclaim_rel_def)
        from 1(1)[OF lp] lt ok1 have "rec \<le> fst res" "fst res \<le> R" "reclaim_rel s1 (snd res) (fst res - rec)"
          by simp_all
        with reclaim_rel_trans[OF go0(2) this(3)] show ?thesis by simp
      next
        case go1
        with rest have lp: "loop R (rec + 1) f s1 = Some res" by simp
        from go1 have ok1: "hash_ok s1" by (simp add: reclaim_rel_def)
        from go1 lt have lt1: "rec + 1 < R" by simp
        from 1(1)[OF lp] lt1 ok1 have *: "rec + 1 \<le> fst res" "fst res \<le> R"
          "reclaim_rel s1 (snd res) (fst res - (rec + 1))"
          by simp_all
        from *(1) have "1 + (fst res - (rec + 1)) = fst res - rec" by simp
        with reclaim_rel_trans[OF go1(3) *(3)] * show ?thesis by simp
      qed
    qed
  qed
  with assms show ?thesis by simp
qed

subsection \<open>Calls that return\<close>

lemma ref_ok_Some [simp]: "ref_ok n (Some i) = (i < n)" "ref_ok n None = False"
  by (simp_all add: ref_ok_def)

lemma ptr_ok_Some [simp]: "ptr_ok n (Some i) = (i < n)" "ptr_ok n None = True"
  by (simp_all add: ptr_ok_def)

lemma ref_okE: "ref_ok n p \<Longrightarrow> (\<And>i. p = Some i \<Longrightarrow> i < n \<Longrightarrow> P) \<Longrightarrow> P"
  by (cases p) simp_all

lemma free_links_okD:
  assumes "free_links_ok s" and "i < length (buffer_table s)"
  shows "ref_ok (length (buffer_table s)) (b_prev_free (buffer_table s ! i))"
    and "ref_ok (length (buffer_table s)) (b_next_free (buffer_table s ! i))"
  using assms by (simp_all add: free_links_ok_def list_all_length)

lemma free_links_ok_bupd:
  assumes "free_links_ok s"
    and "i < length (buffer_table s) \<Longrightarrow> ref_ok (length (buffer_table s)) (b_prev_free (f (buffer_table s ! i)))"
    and "i < length (buffer_table s) \<Longrightarrow> ref_ok (length (buffer_table s)) (b_next_free (f (buffer_table s ! i)))"
  shows "free_links_ok (bupd i f s)"
  using assms by (cases "i < length (buffer_table s)")
    (auto simp: free_links_ok_def list_all_length bupd_def nth_list_update)

lemma free_links_ok_head:
  "free_links_ok s \<Longrightarrow> ptr_ok (length (buffer_table s)) h \<Longrightarrow> free_links_ok (s\<lparr>buffer_head := h\<rparr>)"
  by (simp add: free_links_ok_def)

lemma free_links_ok_cong:
  assumes "fld b_prev_free s' = fld b_prev_free s" and "fld b_next_free s' = fld b_next_free s"
    and "buffer_head s' = buffer_head s" and "length (buffer_table s') = length (buffer_table s)"
  shows "free_links_ok s' = free_links_ok s"
proof -
  have "b_prev_free (buffer_table s' ! i) = b_prev_free (buffer_table s ! i)
      \<and> b_next_free (buffer_table s' ! i) = b_next_free (buffer_table s ! i)"
    if "i < length (buffer_table s)" for i
    using fun_cong[OF assms(1), of i] fun_cong[OF assms(2), of i] that assms(4)
    by (simp add: fld_in)
  then show ?thesis using assms(3,4) by (auto simp: free_links_ok_def list_all_length)
qed

lemma dirty_links_okD:
  assumes "dirty_links_ok s" and "i < length (buffer_table s)"
  shows "ptr_ok (length (buffer_table s)) (b_prev_dirty (buffer_table s ! i))"
    and "ptr_ok (length (buffer_table s)) (b_next_dirty (buffer_table s ! i))"
    and "ptr_ok (length (buffer_table s)) (buffer_dirty_head s)"
  using assms by (simp_all add: dirty_links_ok_def list_all_length)

lemma dirty_links_ok_bupd:
  assumes "dirty_links_ok s"
    and "i < length (buffer_table s) \<Longrightarrow> ptr_ok (length (buffer_table s)) (b_prev_dirty (f (buffer_table s ! i)))"
    and "i < length (buffer_table s) \<Longrightarrow> ptr_ok (length (buffer_table s)) (b_next_dirty (f (buffer_table s ! i)))"
  shows "dirty_links_ok (bupd i f s)"
  using assms by (cases "i < length (buffer_table s)")
    (auto simp: dirty_links_ok_def list_all_length bupd_def nth_list_update)

lemma dirty_links_ok_cong:
  assumes "fld b_prev_dirty s' = fld b_prev_dirty s" and "fld b_next_dirty s' = fld b_next_dirty s"
    and "buffer_dirty_head s' = buffer_dirty_head s" and "length (buffer_table s') = length (buffer_table s)"
  shows "dirty_links_ok s' = dirty_links_ok s"
proof -
  have "b_prev_dirty (buffer_table s' ! i) = b_prev_dirty (buffer_table s ! i)
      \<and> b_next_dirty (buffer_table s' ! i) = b_next_dirty (buffer_table s ! i)"
    if "i < length (buffer_table s)" for i
    using fun_cong[OF assms(1), of i] fun_cong[OF assms(2), of i] that assms(4)
    by (simp add: fld_in)
  then show ?thesis using assms(3,4) by (auto simp: dirty_links_ok_def list_all_length)
qed

lemma bset_in: "i < length (buffer_table s) \<Longrightarrow> bset (Some i) f s = Some (bupd i f s)"
  by (simp add: bset_def)

lemma bupd_nth_eq:
  "i < length (buffer_table s) \<Longrightarrow> buffer_table (bupd i f s) ! j = (if j = i then f (buffer_table s ! i) else buffer_table s ! j)"
  by (simp add: bupd_def nth_list_update)

lemma remove_from_free_list_returns:
  assumes ok: "free_links_ok s" and len: "buf < length (buffer_table s)"
  shows "\<exists>s'. remove_from_free_list buf s = Some s' \<and> free_links_ok s'"
proof (cases "buffer_head s")
  case None
  with ok show ?thesis by (simp add: remove_from_free_list_def)
next
  case (Some h)
  let ?n = "length (buffer_table s)"
  let ?b = "buffer_table s ! buf"
  from free_links_okD[OF ok len] obtain p q where p: "b_prev_free ?b = Some p" "p < ?n"
    and q: "b_next_free ?b = Some q" "q < ?n"
    by (auto elim!: ref_okE)
  define s1 where "s1 = bupd p (\<lambda>x. x\<lparr>b_next_free := Some q\<rparr>) s"
  have ok1: "free_links_ok s1" unfolding s1_def
    using ok p q free_links_okD[OF ok p(2)] by (intro free_links_ok_bupd) simp_all
  have l1: "length (buffer_table s1) = ?n" by (simp add: s1_def)
  let ?b1 = "buffer_table s1 ! buf"
  have b1: "b_prev_free ?b1 = Some p" "b_next_free ?b1 = Some q"
    using p q len by (auto simp: s1_def bupd_nth_eq)
  define s2 where "s2 = bupd q (\<lambda>x. x\<lparr>b_prev_free := Some p\<rparr>) s1"
  have ok2: "free_links_ok s2" unfolding s2_def
    using ok1 p q l1 free_links_okD[OF ok1, of q] by (intro free_links_ok_bupd) simp_all
  have l2: "length (buffer_table s2) = ?n" by (simp add: s2_def l1)
  let ?b2 = "buffer_table s2 ! buf"
  have b2: "b_next_free ?b2 = Some q"
    using b1 q len l1 by (auto simp: s2_def bupd_nth_eq)
  have h2: "buffer_head s2 = Some h" using Some by (simp add: s2_def s1_def)
  have hq: "ptr_ok ?n (Some q)" "ptr_ok ?n None" using q by simp_all
  have step: "remove_from_free_list buf s = do {
        b2 \<leftarrow> bget s2 (Some buf);
        let s3 = (if buffer_head s2 = Some buf then s2\<lparr>buffer_head := b_next_free b2\<rparr> else s2);
        hb \<leftarrow> bget s3 (buffer_head s3);
        Some (if buffer_head s3 = b_next_free hb then s3\<lparr>buffer_head := None\<rparr> else s3) }"
    using Some len p q b1 l1
    unfolding remove_from_free_list_def
    by (simp add: bget_in bset_in s1_def[symmetric] s2_def[symmetric])
  show ?thesis
  proof (cases "h = buf")
    case True
    let ?s3 = "s2\<lparr>buffer_head := Some q\<rparr>"
    have ok3: "free_links_ok ?s3" using ok2 q l2 by (intro free_links_ok_head) simp_all
    then have ok4: "free_links_ok (?s3\<lparr>buffer_head := None\<rparr>)"
      using free_links_ok_head[OF ok3, of None] by simp
    have "bget ?s3 (Some q) = Some (buffer_table s2 ! q)" using q l2 by (simp add: bget_def)
    with True h2 b2 len l2 ok3 ok4 show ?thesis
      by (simp add: step bget_in Let_def)
  next
    case False
    have h: "h < ?n" using ok Some by (simp add: free_links_ok_def)
    have ok4: "free_links_ok (s2\<lparr>buffer_head := None\<rparr>)"
      using free_links_ok_head[OF ok2, of None] by simp
    from False h2 h len l2 ok2 ok4 show ?thesis
      by (simp add: step bget_in Let_def)
  qed
qed

lemma insert_on_free_list_returns:
  assumes ok: "free_links_ok s" and len: "buf < length (buffer_table s)"
  shows "\<exists>s'. insert_on_free_list buf s = Some s' \<and> free_links_ok s'"
proof (cases "buffer_head s")
  case None
  let ?s1 = "bupd buf (\<lambda>x. x\<lparr>b_prev_free := Some buf, b_next_free := Some buf\<rparr>) s"
  have "free_links_ok ?s1" using ok len by (intro free_links_ok_bupd) simp_all
  then have "free_links_ok (?s1\<lparr>buffer_head := Some buf\<rparr>)"
    using len by (intro free_links_ok_head) simp_all
  with None len show ?thesis by (simp add: insert_on_free_list_def bset_in)
next
  case (Some h)
  let ?n = "length (buffer_table s)"
  from ok Some have h: "h < ?n" by (simp add: free_links_ok_def)
  define s1 where "s1 = bupd buf (\<lambda>x. x\<lparr>b_next_free := Some h\<rparr>) s"
  have ok1: "free_links_ok s1" unfolding s1_def
    using ok h free_links_okD[OF ok len] by (intro free_links_ok_bupd) simp_all
  have l1: "length (buffer_table s1) = ?n" by (simp add: s1_def)
  from free_links_okD[OF ok1, of h] h l1 obtain t where t: "b_prev_free (buffer_table s1 ! h) = Some t" "t < ?n"
    by (auto elim!: ref_okE)
  define s2 where "s2 = bupd buf (\<lambda>x. x\<lparr>b_prev_free := Some t\<rparr>) s1"
  have ok2: "free_links_ok s2" unfolding s2_def
    using ok1 t l1 len free_links_okD[OF ok1, of buf] by (intro free_links_ok_bupd) simp_all
  have l2: "length (buffer_table s2) = ?n" by (simp add: s2_def l1)
  from free_links_okD[OF ok2, of h] h l2 obtain t2 where t2: "b_prev_free (buffer_table s2 ! h) = Some t2" "t2 < ?n"
    by (auto elim!: ref_okE)
  define s3 where "s3 = bupd t2 (\<lambda>x. x\<lparr>b_next_free := Some buf\<rparr>) s2"
  have ok3: "free_links_ok s3" unfolding s3_def
    using ok2 t2 l2 len free_links_okD[OF ok2, of t2] by (intro free_links_ok_bupd) simp_all
  have l3: "length (buffer_table s3) = ?n" by (simp add: s3_def l2)
  define s4 where "s4 = bupd h (\<lambda>x. x\<lparr>b_prev_free := Some buf\<rparr>) s3"
  have ok4: "free_links_ok s4" unfolding s4_def
    using ok3 l3 len h free_links_okD[OF ok3, of h] by (intro free_links_ok_bupd) simp_all
  have l4: "length (buffer_table s4) = ?n" by (simp add: s4_def l3)
  have ok5: "free_links_ok (s4\<lparr>buffer_head := Some buf\<rparr>)"
    using ok4 len l4 by (intro free_links_ok_head) simp_all
  have "insert_on_free_list buf s
      = Some (if BUFFER_VALID \<notin> b_flags (buffer_table s4 ! buf) then s4\<lparr>buffer_head := Some buf\<rparr> else s4)"
    using Some len h t t2 l1 l2 l3 l4
    unfolding insert_on_free_list_def
    by (simp add: bget_in bset_in s1_def[symmetric] s2_def[symmetric] s3_def[symmetric] s4_def[symmetric])
  with ok4 ok5 show ?thesis by auto
qed

lemma dirty_links_ok_head:
  "dirty_links_ok s \<Longrightarrow> ptr_ok (length (buffer_table s)) h
   \<Longrightarrow> dirty_links_ok (s\<lparr>buffer_dirty_head := h, kstat_dirty := k\<rparr>)"
  "dirty_links_ok s \<Longrightarrow> ptr_ok (length (buffer_table s)) h
   \<Longrightarrow> dirty_links_ok (s\<lparr>buffer_dirty_head := h\<rparr>)"
  "dirty_links_ok s \<Longrightarrow> dirty_links_ok (s\<lparr>kstat_dirty := k\<rparr>)"
  by (simp_all add: dirty_links_ok_def)

lemma insert_on_dirty_list_returns:
  assumes ok: "dirty_links_ok s" and len: "buf < length (buffer_table s)"
  shows "\<exists>s'. insert_on_dirty_list buf s = Some s' \<and> dirty_links_ok s'"
proof (cases "b_prev_dirty (buffer_table s ! buf) \<noteq> None \<or> b_next_dirty (buffer_table s ! buf) \<noteq> None")
  case True
  with ok len show ?thesis by (auto simp: insert_on_dirty_list_def bget_in)
next
  case False
  let ?n = "length (buffer_table s)"
  show ?thesis
  proof (cases "buffer_dirty_head s")
    case None
    with False len dirty_links_ok_head(1)[OF ok, of "Some buf"] show ?thesis
      by (simp add: insert_on_dirty_list_def bget_in)
  next
    case (Some h)
    with dirty_links_okD(3)[OF ok len] have h: "h < ?n" by simp
    define s1 where "s1 = bupd buf (\<lambda>x. x\<lparr>b_next_dirty := Some h\<rparr>) s"
    have ok1: "dirty_links_ok s1" unfolding s1_def
      using ok h dirty_links_okD[OF ok len] by (intro dirty_links_ok_bupd) simp_all
    have l1: "length (buffer_table s1) = ?n" by (simp add: s1_def)
    define s2 where "s2 = bupd h (\<lambda>x. x\<lparr>b_prev_dirty := Some buf\<rparr>) s1"
    have ok2: "dirty_links_ok s2" unfolding s2_def
      using ok1 h l1 len dirty_links_okD[OF ok1, of h] by (intro dirty_links_ok_bupd) simp_all
    have l2: "length (buffer_table s2) = ?n" by (simp add: s2_def l1)
    have "dirty_links_ok (s2\<lparr>buffer_dirty_head := Some buf,
             kstat_dirty := kstat_dirty s2 + int (PAGE_SIZE div 1024)\<rparr>)"
      using ok2 len l2 by (intro dirty_links_ok_head) simp_all
    with False Some len h l1 show ?thesis
      by (simp add: insert_on_dirty_list_def bget_in bset_in s1_def[symmetric] s2_def[symmetric])
  qed
qed

lemma remove_from_dirty_list_returns:
  assumes ok: "dirty_links_ok s" and len: "buf < length (buffer_table s)"
  shows "\<exists>s'. remove_from_dirty_list buf s = Some s' \<and> dirty_links_ok s'"
proof -
  let ?n = "length (buffer_table s)"
  let ?b = "buffer_table s ! buf"
  note L = dirty_links_okD[OF ok len]
  define s1 where "s1 = (case b_next_dirty ?b of None \<Rightarrow> s
      | Some n \<Rightarrow> bupd n (\<lambda>x. x\<lparr>b_prev_dirty := b_prev_dirty ?b\<rparr>) s)"
  have e1: "(case b_next_dirty ?b of None \<Rightarrow> Some s
            | Some n \<Rightarrow> bset (Some n) (\<lambda>x. x\<lparr>b_prev_dirty := b_prev_dirty ?b\<rparr>) s) = Some s1"
    using L by (auto simp: s1_def bset_in split: option.splits)
  have ok1: "dirty_links_ok s1"
  proof (cases "b_next_dirty ?b")
    case None then show ?thesis using ok by (simp add: s1_def)
  next
    case (Some n)
    with L have n: "n < ?n" by simp
    show ?thesis unfolding s1_def Some option.case
      using ok L dirty_links_okD[OF ok n] by (intro dirty_links_ok_bupd) simp_all
  qed
  have l1: "length (buffer_table s1) = ?n" by (simp add: s1_def split: option.splits)
  have len1: "buf < length (buffer_table s1)" using len l1 by simp
  let ?b1 = "buffer_table s1 ! buf"
  note L1 = dirty_links_okD[OF ok1 len1]
  define s2 where "s2 = (case b_prev_dirty ?b1 of None \<Rightarrow> s1
      | Some q \<Rightarrow> bupd q (\<lambda>x. x\<lparr>b_next_dirty := b_next_dirty ?b1\<rparr>) s1)"
  have e2: "(case b_prev_dirty ?b1 of None \<Rightarrow> Some s1
            | Some q \<Rightarrow> bset (Some q) (\<lambda>x. x\<lparr>b_next_dirty := b_next_dirty ?b1\<rparr>) s1) = Some s2"
    using L1 l1 by (auto simp: s2_def bset_in split: option.splits)
  have ok2: "dirty_links_ok s2"
  proof (cases "b_prev_dirty ?b1")
    case None then show ?thesis using ok1 by (simp add: s2_def)
  next
    case (Some q)
    with L1 have q: "q < length (buffer_table s1)" by simp
    show ?thesis unfolding s2_def Some option.case
      using ok1 L1 dirty_links_okD[OF ok1 q] by (intro dirty_links_ok_bupd) simp_all
  qed
  have l2: "length (buffer_table s2) = ?n" by (simp add: s2_def l1 split: option.splits)
  have len2: "buf < length (buffer_table s2)" using len l2 by simp
  let ?b2 = "buffer_table s2 ! buf"
  note L2 = dirty_links_okD[OF ok2 len2]
  define s3 where "s3 = (if buffer_dirty_head s2 = Some buf
               then s2\<lparr>buffer_dirty_head := b_next_dirty ?b2\<rparr> else s2)"
  have ok3: "dirty_links_ok s3" unfolding s3_def
    using ok2 L2 by (auto intro!: dirty_links_ok_head)
  have l3: "length (buffer_table s3) = ?n" by (simp add: s3_def l2)
  define s4 where "s4 = bupd buf (\<lambda>x. x\<lparr>b_prev_dirty := None, b_next_dirty := None\<rparr>) s3"
  have ok4: "dirty_links_ok s4" unfolding s4_def
    using ok3 by (intro dirty_links_ok_bupd) simp_all
  define s5 where "s5 = bupd buf (clear_flags {BUFFER_DIRTY}) s4"
  have ok5: "dirty_links_ok s5" unfolding s5_def
    using ok4 dirty_links_okD[OF ok4, of buf] by (intro dirty_links_ok_bupd) simp_all
  have l5: "length (buffer_table s5) = ?n" by (simp add: s5_def s4_def l3)
  have k5: "kstat_dirty s5 = kstat_dirty s3" by (simp add: s5_def s4_def)
  have "remove_from_dirty_list buf s = Some (s5\<lparr>kstat_dirty := kstat_dirty s5 - int (PAGE_SIZE div 1024)\<rparr>)"
    unfolding remove_from_dirty_list_def
    using len len1 len2 l3 e1 e2 k5
    by (simp add: bget_in bset_in s3_def[symmetric] s4_def[symmetric] s5_def[symmetric] Let_def
        del: bset_def)
  with dirty_links_ok_head(3)[OF ok5] show ?thesis by blast
qed

lemma BUFFER_HASH_less: "buffer_hash_table s \<noteq> [] \<Longrightarrow> BUFFER_HASH d b s < length (buffer_hash_table s)"
  by (simp add: BUFFER_HASH_def)

lemma unlink_hash_returns:
  assumes len: "buf < length (buffer_table s)"
    and n: "ptr_ok (length (buffer_table s)) (b_next_hash (buffer_table s ! buf))"
    and p: "ptr_ok (length (buffer_table s)) (b_prev_hash (buffer_table s ! buf))"
  shows "\<exists>s'. unlink_hash k buf at_head s = Some s'"
proof -
  let ?b = "buffer_table s ! buf"
  obtain s1 where s1: "(case b_next_hash ?b of None \<Rightarrow> Some s
            | Some n \<Rightarrow> bset (Some n) (\<lambda>x. x\<lparr>b_prev_hash := b_prev_hash ?b\<rparr>) s) = Some s1"
    and l1: "length (buffer_table s1) = length (buffer_table s)"
    and p1: "b_prev_hash (buffer_table s1 ! buf) = b_prev_hash ?b"
    using n len by (cases "b_next_hash ?b") (auto simp: bset_in bupd_nth_eq)
  obtain s2 where s2: "(case b_prev_hash (buffer_table s1 ! buf) of None \<Rightarrow> Some s1
            | Some q \<Rightarrow> bset (Some q) (\<lambda>x. x\<lparr>b_next_hash := b_next_hash (buffer_table s1 ! buf)\<rparr>) s1) = Some s2"
    and l2: "length (buffer_table s2) = length (buffer_table s)"
    using p p1 l1 by (cases "b_prev_hash ?b") (auto simp: bset_in)
  show ?thesis
    unfolding unlink_hash_def
    using len l1 l2 s1 s2 by (simp add: bget_in del: bset_def)
qed

lemma remove_from_hash_returns:
  assumes ok: "hash_ok s" and len: "buf < length (buffer_table s)" and ne: "buffer_hash_table s \<noteq> []"
  shows "\<exists>s'. remove_from_hash buf s = Some s'"
proof -
  let ?k = "bucket_of s buf"
  let ?xs = "chain_of s ?k"
  have k: "?k < length (buffer_hash_table s)" using ne by (simp add: bucket_of_def BUFFER_HASH_less)
  note c = hash_okD[OF ok k]
  then have sg: "seg (blink b_next_hash s) (buffer_hash_table s ! ?k) ?xs None"
    and pv: "prevs (blink b_prev_hash s) None ?xs" and d: "distinct ?xs"
    and va: "list_all (\<lambda>x. x < length (buffer_table s)) ?xs"
    by (auto simp: chain_def list_all_iff)
  have rw: "remove_from_hash buf s = remove_walk ?k buf True (buffer_hash_table s ! ?k) s"
    using len k by (simp add: remove_from_hash_def bget_in slot_get_def bucket_of_def Let_def)
  show ?thesis
  proof (cases "buf \<in> set ?xs")
    case False
    from remove_walk_notin[OF sg va False] rw show ?thesis by simp
  next
    case True
    then obtain as cs where sp: "?xs = as @ buf # cs" and nas: "buf \<notin> set as"
      by (meson split_list_first)
    from va sp have vas: "list_all (\<lambda>x. x < length (buffer_table s)) as" by simp
    from unlink_path[OF sg[unfolded sp] d[unfolded sp] pv[unfolded sp]]
    have pb: "blink b_prev_hash s buf = (if as = [] then None else Some (last as))"
      and nb: "blink b_next_hash s buf = (if cs = [] then None else Some (hd cs))" by simp_all
    have "ptr_ok (length (buffer_table s)) (b_next_hash (buffer_table s ! buf))"
      using nb va sp len by (cases cs) (auto simp: blink_in)
    moreover have "ptr_ok (length (buffer_table s)) (b_prev_hash (buffer_table s ! buf))"
      using pb va sp len by (cases as rule: rev_cases) (auto simp: blink_in)
    ultimately obtain s' where "unlink_hash ?k buf (as = []) s = Some s'"
      using unlink_hash_returns[OF len] by blast
    with remove_walk_in[OF sg[unfolded sp] vas nas, of ?k True] rw show ?thesis by simp
  qed
qed

lemma insert_to_hash_returns:
  assumes ok: "hash_ok s" and len: "buf < length (buffer_table s)" and ne: "buffer_hash_table s \<noteq> []"
  shows "\<exists>s'. insert_to_hash buf s = Some s'"
proof -
  let ?k = "bucket_of s buf"
  have k: "?k < length (buffer_hash_table s)" using ne by (simp add: bucket_of_def BUFFER_HASH_less)
  note c = hash_okD[OF ok k]
  show ?thesis
  proof (cases "buffer_hash_table s ! ?k")
    case None
    with k len show ?thesis
      by (simp add: insert_to_hash_def bget_in slot_get_def bucket_of_def Let_def bset_in)
  next
    case (Some old)
    with c have "chain_of s ?k \<noteq> []" "hd (chain_of s ?k) = old"
      by (cases "chain_of s ?k"; simp add: chain_def)+
    then have "old \<in> set (chain_of s ?k)" by (cases "chain_of s ?k") auto
    from chain_valid[OF c this] have "old < length (buffer_table s)" by simp
    with Some k len show ?thesis
      by (simp add: insert_to_hash_def bget_in slot_get_def bucket_of_def Let_def bset_in)
  qed
qed

lemma hash_ok_flags:
  "hash_ok (bupd i (set_flags F) s) = hash_ok s" "hash_ok (bupd i (clear_flags F) s) = hash_ok s"
  using hframeD(2)[OF hframe_flags(1)] hframeD(2)[OF hframe_flags(2)] by simp_all

lemma getblk_rebind_returns:
  assumes ok: "hash_ok s" and len: "buf < length (buffer_table s)" and ne: "buffer_hash_table s \<noteq> []"
  shows "\<exists>s'. getblk_rebind buf dev block sz s = Some (Some buf, s') \<and> hash_ok s'"
proof -
  from remove_from_hash_returns[OF ok len ne] obtain s1 where s1: "remove_from_hash buf s = Some s1"
    by blast
  note R = remove_from_hash_chains[OF ok s1]
  note V1 = V_hashD[OF remove_from_hash_V[OF s1]]
  have l1: "buf < length (buffer_table s1)" and ne1: "buffer_hash_table s1 \<noteq> []"
    using V1 len ne by auto
  have nin1: "\<not> in_hash s1 buf"
    using R V1 by (auto simp: in_hash_chain_of)
  define s2 where "s2 = bupd buf (\<lambda>x. x\<lparr>b_dev := dev, b_block := block, b_size := sz\<rparr>) s1"
  from rekey_chains[OF conjunct1[OF R] nin1 l1, where d=dev and k=block and z=sz]
  have ok2: "hash_ok s2" and c2: "chain_of s2 = chain_of s1" by (simp_all add: s2_def)
  have l2: "buf < length (buffer_table s2)" and ne2: "buffer_hash_table s2 \<noteq> []"
    using l1 ne1 by (simp_all add: s2_def)
  have nin2: "\<not> in_hash s2 buf"
    using nin1 c2 by (simp add: in_hash_chain_of s2_def)
  from insert_to_hash_returns[OF ok2 l2 ne2] obtain s3 where s3: "insert_to_hash buf s2 = Some s3"
    by blast
  from insert_to_hash_chains[OF ok2 nin2 s3] have ok3: "hash_ok s3" by simp
  have l3: "buf < length (buffer_table s3)"
    using V_hashD[OF insert_to_hash_V[OF s3]] l2 by simp
  have "getblk_rebind buf dev block sz s = Some (Some buf, bupd buf (clear_flags {BUFFER_VALID}) s3)"
    using s1 l1 s3 l3 by (simp add: getblk_rebind_def bset_in s2_def[symmetric])
  with ok3 show ?thesis by (simp add: hash_ok_flags)
qed

lemma free_links_ok_flags:
  "free_links_ok (bupd i (set_flags F) s) = free_links_ok s"
  "free_links_ok (bupd i (clear_flags F) s) = free_links_ok s"
  by (rule free_links_ok_cong; simp add: fld_bupd_same)+

lemma dirty_links_ok_flags:
  "dirty_links_ok (bupd i (set_flags F) s) = dirty_links_ok s"
  "dirty_links_ok (bupd i (clear_flags F) s) = dirty_links_ok s"
  by (rule dirty_links_ok_cong; simp add: fld_bupd_same)+

lemma flag_on_in: "i < length (buffer_table s) \<Longrightarrow> flag_on s i f = (f \<in> b_flags (buffer_table s ! i))"
  by (simp add: flag_on_def fld_in)

lemma get_free_buffer_returns:
  assumes ok: "free_links_ok s" and head: "buffer_head s = Some v"
    and unl: "\<not> flag_on s v BUFFER_LOCKED"
  shows "\<exists>t. get_free_buffer s = Some (Some v, t) \<and> free_links_ok t"
proof -
  from ok head have len: "v < length (buffer_table s)" by (simp add: free_links_ok_def)
  from remove_from_free_list_returns[OF ok len] obtain s1 where
    s1: "remove_from_free_list v s = Some s1" and ok1: "free_links_ok s1" by blast
  have l1: "v < length (buffer_table s1)"
    using V_freeD[OF remove_from_free_list_V[OF s1]] len by simp
  have "get_free_buffer s = Some (Some v, bupd v (set_flags {BUFFER_LOCKED}) s1)"
    using head len unl s1 l1 by (simp add: get_free_buffer_def bget_in flag_on_in bset_in)
  with ok1 show ?thesis by (simp add: free_links_ok_flags)
qed

lemma brelse_returns:
  assumes fl: "free_links_ok s" and dl: "dirty_links_ok s" and len: "buf < length (buffer_table s)"
  shows "\<exists>s'. brelse buf s = Some s' \<and> free_links_ok s' \<and> dirty_links_ok s'"
proof -
  obtain s1 where s1: "(if BUFFER_DIRTY \<in> b_flags (buffer_table s ! buf)
                        then insert_on_dirty_list buf s else Some s) = Some s1"
    and dl1: "dirty_links_ok s1" and V1: "V_dirty s1 = V_dirty s"
    using insert_on_dirty_list_returns[OF dl len] dl
    by (cases "BUFFER_DIRTY \<in> b_flags (buffer_table s ! buf)") (auto dest: insert_on_dirty_list_V)
  note D1 = V_dirtyD[OF V1]
  have fl1: "free_links_ok s1" using fl D1 by (simp add: free_links_ok_cong[of s1 s])
  have l1: "buf < length (buffer_table s1)" using D1 len by simp
  from insert_on_free_list_returns[OF fl1 l1] obtain s2 where
    s2: "insert_on_free_list buf s1 = Some s2" and fl2: "free_links_ok s2" by blast
  note F2 = V_freeD[OF insert_on_free_list_V[OF s2]]
  have dl2: "dirty_links_ok s2" using dl1 F2 by (simp add: dirty_links_ok_cong[of s2 s1])
  have l2: "buf < length (buffer_table s2)" using F2 l1 by simp
  have "brelse buf s = Some (bupd buf (clear_flags {BUFFER_LOCKED}) s2)"
    using len s1 s2 l2 by (simp add: brelse_def bget_in bset_in del: bset_def)
  with fl2 dl2 show ?thesis by (simp add: free_links_ok_flags dirty_links_ok_flags)
qed

lemma sync_one_buffer_returns:
  assumes dl: "dirty_links_ok s" and len: "buf < length (buffer_table s)"
    and dat: "b_data (buffer_table s ! buf) \<noteq> None
              \<or> write_fails s (b_dev (buffer_table s ! buf)) (b_block (buffer_table s ! buf))"
  shows "\<exists>s'. sync_one_buffer buf s = Some s' \<and> dirty_links_ok s'"
proof -
  let ?b = "buffer_table s ! buf"
  consider (nodev) "devices s (b_dev ?b) = None"
    | (nomethod) d where "devices s (b_dev ?b) = Some d" "write_block d = None"
    | (fail) d wr where "devices s (b_dev ?b) = Some d" "write_block d = Some wr" "wr (b_block ?b) < 0"
    | (ok) d wr where "devices s (b_dev ?b) = Some d" "write_block d = Some wr" "\<not> wr (b_block ?b) < 0"
    by (cases "devices s (b_dev ?b)"; cases "write_block (the (devices s (b_dev ?b)))") auto
  then show ?thesis
  proof cases
    case nodev with len dl show ?thesis by (simp add: sync_one_buffer_def bget_in)
  next
    case nomethod with len dl show ?thesis by (simp add: sync_one_buffer_def bget_in)
  next
    case fail
    have "dirty_links_ok (s\<lparr>io_log := l\<rparr>)" for l using dl by (simp add: dirty_links_ok_def)
    with fail len show ?thesis by (simp add: sync_one_buffer_def bget_in Let_def)
  next
    case ok
    with dat obtain fr where fr: "b_data ?b = Some fr" by (auto simp: write_fails_def)
    let ?s1 = "device_written ?b fr (s\<lparr>io_log := io_log s @ [WriteBlock (b_dev ?b) (b_block ?b) (b_data ?b) (b_size ?b)]\<rparr>)"
    have "dirty_links_ok ?s1" using dl by (simp add: dirty_links_ok_def device_written_def)
    moreover have "buf < length (buffer_table ?s1)" using len by (simp add: device_written_def)
    ultimately obtain s' where "remove_from_dirty_list buf ?s1 = Some s'" "dirty_links_ok s'"
      using remove_from_dirty_list_returns by blast
    with ok len fr show ?thesis by (simp add: sync_one_buffer_def bget_in Let_def)
  qed
qed

lemma pframe_refl [simp]: "pframe s s" by (simp add: pframe_def)

lemma pframe_trans: "pframe a b \<Longrightarrow> pframe b c \<Longrightarrow> pframe a c" by (simp add: pframe_def)

lemma pget_in: "i < length (page_table s) \<Longrightarrow> pget s (Some i) = Some (page_table s ! i)"
  by (simp add: pget_def)

lemma pset_in: "i < length (page_table s) \<Longrightarrow>
  pset (Some i) f s = Some (s\<lparr>page_table := (page_table s)[i := f (page_table s ! i)]\<rparr>)"
  by (simp add: pset_def)

lemma pframe_pset:
  assumes "\<And>x. p_next_hash (f x) = p_next_hash x" "\<And>x. p_prev_hash (f x) = p_prev_hash x"
    "\<And>x. p_inode (f x) = p_inode x" "\<And>x. p_offset (f x) = p_offset x"
  shows "pframe s (s\<lparr>page_table := (page_table s)[i := f (page_table s ! i)]\<rparr>)"
  using assms by (simp add: pframe_def map_update map_upd_same)

lemma pframe_other [simp]:
  "pframe s (s\<lparr>kstat_free_pages := k\<rparr>)" "pframe s (s\<lparr>page_head := h\<rparr>)"
  by (simp_all add: pframe_def)

lemma pframe_nth:
  assumes "pframe s s'" and "i < length (page_table s)"
  shows "p_next_hash (page_table s' ! i) = p_next_hash (page_table s ! i)"
    "p_prev_hash (page_table s' ! i) = p_prev_hash (page_table s ! i)"
    "p_inode (page_table s' ! i) = p_inode (page_table s ! i)"
    "p_offset (page_table s' ! i) = p_offset (page_table s ! i)"
  using assms unfolding pframe_def by (metis nth_map)+

lemma pframe_plink:
  assumes "pframe s s'"
  shows "plink p_next_hash s' = plink p_next_hash s"
proof
  fix i
  show "plink p_next_hash s' i = plink p_next_hash s i"
    using pframe_nth(1)[OF assms, of i] assms
    by (cases "i < length (page_table s)") (simp_all add: plink_def pget_def pframe_def)
qed

lemma pg_remove_from_free_list_returns:
  assumes len: "pg < length (page_table s)"
    and p: "ref_ok (length (page_table s)) (p_prev_free (page_table s ! pg))"
    and n: "ref_ok (length (page_table s)) (p_next_free (page_table s ! pg))"
  shows "\<exists>s'. pg_remove_from_free_list pg s = Some s' \<and> pframe s s'"
proof (cases "kstat_free_pages s = 0")
  case True
  then show ?thesis by (simp add: pg_remove_from_free_list_def)
next
  case False
  let ?n = "length (page_table s)"
  from p n obtain a b where a: "p_prev_free (page_table s ! pg) = Some a" "a < ?n"
    and b: "p_next_free (page_table s ! pg) = Some b" "b < ?n"
    by (auto elim!: ref_okE)
  define s1 where "s1 = s\<lparr>page_table := (page_table s)[a := (page_table s ! a)\<lparr>p_next_free := Some b\<rparr>]\<rparr>"
  have f1: "pframe s s1" unfolding s1_def
    using pframe_pset[of "\<lambda>x. x\<lparr>p_next_free := Some b\<rparr>" s a] by simp
  have l1: "length (page_table s1) = ?n" by (simp add: s1_def)
  have pn1: "p_prev_free (page_table s1 ! pg) = Some a" "p_next_free (page_table s1 ! pg) = Some b"
    using a b len by (auto simp: s1_def nth_list_update)
  define s2 where "s2 = s1\<lparr>page_table := (page_table s1)[b := (page_table s1 ! b)\<lparr>p_prev_free := Some a\<rparr>]\<rparr>"
  have f2: "pframe s1 s2" unfolding s2_def
    using pframe_pset[of "\<lambda>x. x\<lparr>p_prev_free := Some a\<rparr>" s1 b] by simp
  have l2: "length (page_table s2) = ?n" by (simp add: s2_def l1)
  have "\<exists>s'. pg_remove_from_free_list pg s = Some s' \<and> pframe s2 s'"
    using False len a b l1 l2 pn1
    unfolding pg_remove_from_free_list_def
    by (simp add: pget_in pset_in s1_def[symmetric] s2_def[symmetric] Let_def pframe_def del: pset_def)
  with pframe_trans[OF f1 f2] show ?thesis by (blast intro: pframe_trans)
qed

lemma pg_unlink_hash_returns:
  assumes len: "pg < length (page_table s)"
    and n: "ptr_ok (length (page_table s)) (p_next_hash (page_table s ! pg))"
    and p: "ptr_ok (length (page_table s)) (p_prev_hash (page_table s ! pg))"
  shows "\<exists>s'. pg_unlink_hash k pg at_head s = Some s'"
proof -
  let ?b = "page_table s ! pg"
  obtain s1 where s1: "(case p_next_hash ?b of None \<Rightarrow> Some s
            | Some n \<Rightarrow> pset (Some n) (\<lambda>x. x\<lparr>p_prev_hash := p_prev_hash ?b\<rparr>) s) = Some s1"
    and l1: "length (page_table s1) = length (page_table s)"
    and p1: "p_prev_hash (page_table s1 ! pg) = p_prev_hash ?b"
    using n len by (cases "p_next_hash ?b") (auto simp: pset_in nth_list_update)
  obtain s2 where s2: "(case p_prev_hash (page_table s1 ! pg) of None \<Rightarrow> Some s1
            | Some q \<Rightarrow> pset (Some q) (\<lambda>x. x\<lparr>p_next_hash := p_next_hash (page_table s1 ! pg)\<rparr>) s1) = Some s2"
    and l2: "length (page_table s2) = length (page_table s)"
    using p p1 l1 by (cases "p_prev_hash ?b") (auto simp: pset_in)
  show ?thesis
    unfolding pg_unlink_hash_def
    using len l1 l2 s1 s2 by (simp add: pget_in Let_def del: pset_def)
qed

lemma plink_in: "i < length (page_table s) \<Longrightarrow> plink g s i = g (page_table s ! i)"
  by (simp add: plink_def pget_in)

lemma pg_remove_walk_returns:
  assumes "seg (plink p_next_hash s) h xs None" and "list_all (\<lambda>x. x < length (page_table s)) xs"
    and "pg < length (page_table s)"
    and "ptr_ok (length (page_table s)) (p_next_hash (page_table s ! pg))"
    and "ptr_ok (length (page_table s)) (p_prev_hash (page_table s ! pg))"
  shows "\<exists>s'. pg_remove_walk k pg at_head h s = Some s'"
  using assms
proof (induction xs arbitrary: h at_head)
  case Nil
  then show ?case by (simp add: pg_remove_walk.simps)
next
  case (Cons x xs)
  show ?case
  proof (cases "x = pg")
    case True
    with Cons.prems pg_unlink_hash_returns[of pg s k at_head] show ?thesis
      by (subst pg_remove_walk.simps) simp
  next
    case False
    from Cons.prems have "seg (plink p_next_hash s) (p_next_hash (page_table s ! x)) xs None"
      by (simp add: plink_in)
    from Cons.IH[OF this, of False] Cons.prems obtain s' where
      "pg_remove_walk k pg False (p_next_hash (page_table s ! x)) s = Some s'" by auto
    with False Cons.prems show ?thesis
      by (subst pg_remove_walk.simps) (simp add: pget_in)
  qed
qed

lemma PAGE_HASH_frame: "page_hash_table s' = page_hash_table s \<Longrightarrow> PAGE_HASH i off s' = PAGE_HASH i off s"
  by (simp add: PAGE_HASH_def)

lemma pg_remove_from_hash_returns:
  assumes len: "pg < length (page_table s)"
    and ch: "p_inode (page_table s ! pg) = 0 \<or> page_chain_ok s (page_table s ! pg)"
    and fr: "pframe s s1"
  shows "\<exists>s'. pg_remove_from_hash pg s1 = Some s'"
proof (cases "p_inode (page_table s ! pg) = 0")
  case True
  with len fr pframe_nth(3)[OF fr len] show ?thesis
    by (simp add: pg_remove_from_hash_def pget_in pframe_def)
next
  case False
  with ch have c: "page_chain_ok s (page_table s ! pg)" by simp
  let ?p = "page_table s ! pg"
  let ?k = "PAGE_HASH (p_inode ?p) (p_offset ?p) s"
  let ?h = "page_hash_table s ! ?k"
  let ?xs = "follow (plink p_next_hash s) (length (page_table s)) ?h"
  from c have ne: "page_hash_table s \<noteq> []" and sg: "seg (plink p_next_hash s) ?h ?xs None"
    and va: "list_all (\<lambda>x. x < length (page_table s)) ?xs"
    and pn: "ptr_ok (length (page_table s)) (p_next_hash ?p)"
    and pp: "ptr_ok (length (page_table s)) (p_prev_hash ?p)"
    by (simp_all add: page_chain_ok_def Let_def)
  have k: "?k < length (page_hash_table s)" using ne by (simp add: PAGE_HASH_def)
  note N = pframe_nth[OF fr len]
  have l1: "length (page_table s1) = length (page_table s)"
    and h1: "page_hash_table s1 = page_hash_table s" using fr by (simp_all add: pframe_def)
  have "\<exists>s'. pg_remove_walk ?k pg True ?h s1 = Some s'"
    using sg va len pn pp
    by (intro pg_remove_walk_returns[where xs = ?xs]) (simp_all add: pframe_plink[OF fr] l1 N)
  then show ?thesis
    using len False k
    by (simp add: pg_remove_from_hash_def pget_in l1 N h1 PAGE_HASH_frame[OF h1] slot_get_def Let_def)
qed

lemma pset_len: "pset p f s = Some s' \<Longrightarrow> length (page_table s') = length (page_table s)"
  by (auto simp: pset_def split: option.splits if_splits)

lemma pg_unlink_hash_len:
  "pg_unlink_hash i pg at_head s = Some s' \<Longrightarrow> length (page_table s') = length (page_table s)"
  unfolding pg_unlink_hash_def
  by (auto simp: bind_eq_Some_conv Let_def split: option.splits if_splits dest!: pset_len)

lemma pg_remove_walk_len:
  "pg_remove_walk i pg at_head h s = Some s' \<Longrightarrow> length (page_table s') = length (page_table s)"
proof (rule pg_remove_walk.raw_induct[where P="\<lambda>i pg at_head h s s'. length (page_table s') = length (page_table s)"], goal_cases)
  case (1 f i pg at_head h s s')
  then show ?case
    by (auto simp: bind_eq_Some_conv split: option.splits if_splits dest: pg_unlink_hash_len)
qed

lemma pg_remove_from_hash_len:
  "pg_remove_from_hash pg s = Some s' \<Longrightarrow> length (page_table s') = length (page_table s)"
  unfolding pg_remove_from_hash_def
  by (auto simp: bind_eq_Some_conv Let_def split: option.splits if_splits dest: pg_remove_walk_len)

lemma get_free_page_returns:
  assumes "page_head_ok s"
  shows "\<exists>r s'. get_free_page s = Some (r, s')"
proof (cases "kstat_free_pages s = 0")
  case True
  then show ?thesis by (simp add: get_free_page_def)
next
  case False
  with assms obtain pg where h: "page_head s = Some pg" and len: "pg < length (page_table s)"
    and p: "ref_ok (length (page_table s)) (p_prev_free (page_table s ! pg))"
    and n: "ref_ok (length (page_table s)) (p_next_free (page_table s ! pg))"
    and c: "p_inode (page_table s ! pg) = 0 \<or> page_chain_ok s (page_table s ! pg)"
    by (auto simp: page_head_ok_def pget_def split: option.splits if_splits)
  from pg_remove_from_free_list_returns[OF len p n] obtain s1 where
    s1: "pg_remove_from_free_list pg s = Some s1" and f1: "pframe s s1" by blast
  from pg_remove_from_hash_returns[OF len c f1] obtain s2 where
    s2: "pg_remove_from_hash pg s1 = Some s2" by blast
  have "pg < length (page_table s2)"
    using pg_remove_from_hash_len[OF s2] f1 len by (simp add: pframe_def)
  with False h s1 s2 show ?thesis
    by (simp add: get_free_page_def pset_in)
qed

lemma get_free_page_len:
  "get_free_page s = Some (r, s') \<Longrightarrow> length (page_table s') = length (page_table s)
     \<and> (case r of None \<Rightarrow> True | Some pg \<Rightarrow> pg < length (page_table s))"
  unfolding get_free_page_def
  by (auto simp: bind_eq_Some_conv pset_def pg_remove_from_free_list_def Let_def
      split: option.splits if_splits dest!: pg_remove_from_hash_len pset_len)

lemma kmalloc_returns:
  assumes "page_head_ok s"
  shows "\<exists>a s'. kmalloc s = Some (a, s')"
proof -
  from get_free_page_returns[OF assms] obtain r s' where g: "get_free_page s = Some (r, s')" by blast
  from get_free_page_len[OF g] g show ?thesis
    by (cases r) (simp_all add: kmalloc_def pget_in)
qed

lemma page_head_ok_cong:
  assumes "page_table s' = page_table s" "page_head s' = page_head s"
    "page_hash_table s' = page_hash_table s" "kstat_free_pages s' = kstat_free_pages s"
  shows "page_head_ok s' = page_head_ok s"
proof -
  have "pget s' = pget s" by (rule ext) (simp add: pget_def assms split: option.splits)
  then have pl: "plink p_next_hash s' = plink p_next_hash s" by (simp add: plink_def fun_eq_iff)
  have "page_chain_ok s' = page_chain_ok s"
    by (rule ext) (simp add: page_chain_ok_def pl assms PAGE_HASH_frame[OF assms(3)])
  then show ?thesis using \<open>pget s' = pget s\<close>
    by (simp add: page_head_ok_def assms cong: option.case_cong)
qed

subsection \<open>Calls that return: getblk and bread\<close>

lemma links_ok_other [simp]:
  "free_links_ok (s\<lparr>io_log := l\<rparr>) = free_links_ok s"
  "free_links_ok (s\<lparr>mem := m\<rparr>) = free_links_ok s"
  "free_links_ok (s\<lparr>kstat_buffers := k\<rparr>) = free_links_ok s"
  "dirty_links_ok (s\<lparr>io_log := l\<rparr>) = dirty_links_ok s"
  "dirty_links_ok (s\<lparr>mem := m\<rparr>) = dirty_links_ok s"
  "dirty_links_ok (s\<lparr>kstat_buffers := k\<rparr>) = dirty_links_ok s"
  by (simp_all add: free_links_ok_def dirty_links_ok_def)

lemma links_ok_data [simp]:
  "free_links_ok (bupd i (b_data_update f) s) = free_links_ok s"
  "dirty_links_ok (bupd i (b_data_update f) s) = dirty_links_ok s"
  by (rule free_links_ok_cong dirty_links_ok_cong; simp add: fld_bupd_same)+

lemma get_free_buffer_frame:
  assumes "get_free_buffer s = Some (Some v, t)"
  shows "v < length (buffer_table t) \<and> length (buffer_table t) = length (buffer_table s)
    \<and> hash_ok t = hash_ok s \<and> dirty_links_ok t = dirty_links_ok s \<and> page_head_ok t = page_head_ok s
    \<and> buffer_hash_table t = buffer_hash_table s
    \<and> b_flags (buffer_table t ! v) = b_flags (buffer_table s ! v) \<union> {BUFFER_LOCKED}
    \<and> b_data (buffer_table t ! v) = b_data (buffer_table s ! v)
    \<and> io_log t = io_log s \<and> devices t = devices s \<and> mem t = mem s \<and> disk t = disk s"
proof -
  from get_free_buffer_effect[OF assms] have head: "buffer_head s = Some v"
    and hf: "hframe s t" by auto
  from get_free_buffer_head[OF assms head] obtain sa where
    sa: "V_free sa = V_free s" and len: "v < length (buffer_table sa)"
    and t: "t = bupd v (set_flags {BUFFER_LOCKED}) sa" by blast
  note V = V_freeD[OF sa]
  have lens: "v < length (buffer_table s)" using V len by simp
  have dl: "dirty_links_ok sa = dirty_links_ok s" using V by (intro dirty_links_ok_cong) simp_all
  have pg: "page_head_ok sa = page_head_ok s" using V by (intro page_head_ok_cong) simp_all
  have fl: "b_flags (buffer_table sa ! v) = b_flags (buffer_table s ! v)"
    and da: "b_data (buffer_table sa ! v) = b_data (buffer_table s ! v)"
    using V fld_in[OF len, of b_flags] fld_in[OF lens, of b_flags]
      fld_in[OF len, of b_data] fld_in[OF lens, of b_data] by simp_all
  have pgt: "page_head_ok t = page_head_ok sa" unfolding t by (rule page_head_ok_cong) simp_all
  show ?thesis
    using V len hframeD(2)[OF hf] dl pg pgt fl da
    by (simp add: t dirty_links_ok_flags bupd_nth_eq)
qed

lemma page_head_ok_frame:
  "V_pages s' = V_pages s \<Longrightarrow> hash_ok s' = hash_ok s \<and> free_links_ok s' = free_links_ok s
     \<and> dirty_links_ok s' = dirty_links_ok s"
  using hframeD(2)[OF hframe_V_pages, of s' s] V_pagesD[of s' s]
  by (simp add: free_links_ok_def dirty_links_ok_def)

lemma rebind_links:
  assumes "getblk_rebind v dev block sz t = Some (r, t')"
  shows "free_links_ok t' = free_links_ok t \<and> dirty_links_ok t' = dirty_links_ok t
     \<and> length (buffer_table t') = length (buffer_table t)
     \<and> b_data (buffer_table t' ! v) = b_data (buffer_table t ! v)"
proof -
  note E = getblk_rebind_effect[OF assms]
  then have len: "v < length (buffer_table t)" and len': "v < length (buffer_table t')" by simp_all
  from E have "fld b_data t' v = fld b_data t v" by simp
  then have "b_data (buffer_table t' ! v) = b_data (buffer_table t ! v)"
    by (simp add: fld_in[OF len] fld_in[OF len'])
  moreover have "free_links_ok t' = free_links_ok t" using E by (intro free_links_ok_cong) simp_all
  moreover have "dirty_links_ok t' = dirty_links_ok t" using E by (intro dirty_links_ok_cong) simp_all
  ultimately show ?thesis using E by simp
qed

lemma getblk_reuse_total:
  assumes ok: "hash_ok t" and fl: "free_links_ok t" and dl: "dirty_links_ok t" and pg: "page_head_ok t"
    and len: "v < length (buffer_table t)" and ne: "buffer_hash_table t \<noteq> []"
    and dat: "BUFFER_DIRTY \<in> b_flags (buffer_table t ! v) \<Longrightarrow> b_data (buffer_table t ! v) \<noteq> None"
  shows "\<exists>r t'. getblk_reuse v dev block sz t = Some (r, t')
     \<and> free_links_ok t' \<and> dirty_links_ok t' \<and> length (buffer_table t') = length (buffer_table t)
     \<and> (r = Some v \<and> b_data (buffer_table t' ! v) \<noteq> None
        \<or> r = None \<and> BUFFER_DIRTY \<notin> b_flags (buffer_table t ! v) \<and> b_data (buffer_table t ! v) = None
            \<and> (\<exists>t2. kmalloc t = Some (None, t2)))"
proof -
  let ?b = "buffer_table t ! v"
  consider (dirty) "BUFFER_DIRTY \<in> b_flags ?b"
    | (nodata) "BUFFER_DIRTY \<notin> b_flags ?b" "b_data ?b = None"
    | (plain) "BUFFER_DIRTY \<notin> b_flags ?b" "b_data ?b \<noteq> None" by blast
  then show ?thesis
  proof cases
    case dirty
    from sync_one_buffer_returns[OF dl len] dat[OF dirty] obtain t2 where
      sy: "sync_one_buffer v t = Some t2" and dl2: "dirty_links_ok t2" by blast
    note E = sync_one_buffer_effect[OF sy]
    have ok2: "hash_ok t2" using hframeD(2)[OF sync_one_buffer_hframe[OF sy]] ok by simp
    have fl2: "free_links_ok t2" using E fl by (simp add: free_links_ok_cong[of t2 t])
    have len2: "v < length (buffer_table t2)" and ne2: "buffer_hash_table t2 \<noteq> []"
      using E len ne by simp_all
    have "fld b_data t2 v = fld b_data t v" using E by simp
    then have d2: "b_data (buffer_table t2 ! v) = b_data ?b"
      by (simp add: fld_in[OF len] fld_in[OF len2])
    from getblk_rebind_returns[OF ok2 len2 ne2, of dev block sz] obtain t' where
      rb: "getblk_rebind v dev block sz t2 = Some (Some v, t')" by blast
    from rebind_links[OF rb] fl2 dl2 d2 dat[OF dirty] E
    have "free_links_ok t' \<and> dirty_links_ok t' \<and> length (buffer_table t') = length (buffer_table t)
       \<and> b_data (buffer_table t' ! v) \<noteq> None" by simp
    moreover have "getblk_reuse v dev block sz t = Some (Some v, t')"
      using dirty len sy rb by (simp add: getblk_reuse_def bget_in)
    ultimately show ?thesis by blast
  next
    case plain
    from getblk_rebind_returns[OF ok len ne, of dev block sz] obtain t' where
      rb: "getblk_rebind v dev block sz t = Some (Some v, t')" by blast
    from rebind_links[OF rb] fl dl plain
    have "free_links_ok t' \<and> dirty_links_ok t' \<and> length (buffer_table t') = length (buffer_table t)
       \<and> b_data (buffer_table t' ! v) \<noteq> None" by simp
    moreover have "getblk_reuse v dev block sz t = Some (Some v, t')"
      using plain len rb by (auto simp: getblk_reuse_def bget_in)
    ultimately show ?thesis by blast
  next
    case nodata
    from kmalloc_returns[OF pg] obtain a t2 where km: "kmalloc t = Some (a, t2)" by blast
    note K = V_pagesD[OF kmalloc_V[OF km]]
    note P = page_head_ok_frame[OF kmalloc_V[OF km]]
    have len2: "v < length (buffer_table t2)" using K len by simp
    show ?thesis
    proof (cases a)
      case None
      from brelse_returns[of t2 v] P fl dl len2 obtain t' where
        br: "brelse v t2 = Some t'" and "free_links_ok t'" "dirty_links_ok t'" by auto
      moreover have "length (buffer_table t') = length (buffer_table t)"
        using brelse_effect[OF br] K by simp
      moreover have "getblk_reuse v dev block sz t = Some (None, t')"
        using nodata len km None br by (simp add: getblk_reuse_def bget_in)
      ultimately show ?thesis using nodata km None by blast
    next
      case (Some fr)
      let ?t3 = "bupd v (\<lambda>x. x\<lparr>b_data := Some fr\<rparr>) t2"
      let ?t4 = "?t3\<lparr>kstat_buffers := kstat_buffers ?t3 + int (PAGE_SIZE div 1024)\<rparr>"
      have "hframe t2 ?t3" by (rule hframe_data)
      moreover have "hframe ?t3 ?t4" by (rule hframe_kstat)
      ultimately have "hframe t2 ?t4" by (rule hframe_trans)
      from hframeD(2)[OF this] P ok have ok4: "hash_ok ?t4" by simp
      have len4: "v < length (buffer_table ?t4)" and ne4: "buffer_hash_table ?t4 \<noteq> []"
        using len2 K ne by simp_all
      from getblk_rebind_returns[OF ok4 len4 ne4, of dev block sz] obtain t' where
        rb: "getblk_rebind v dev block sz ?t4 = Some (Some v, t')" by blast
      have "b_data (buffer_table ?t4 ! v) = Some fr" using len2 by (simp add: bupd_nth_eq)
      with rebind_links[OF rb] P fl dl K
      have "free_links_ok t' \<and> dirty_links_ok t' \<and> length (buffer_table t') = length (buffer_table t)
         \<and> b_data (buffer_table t' ! v) \<noteq> None" by simp
      moreover have "getblk_reuse v dev block sz t = Some (Some v, t')"
        using nodata len km Some len2 rb by (simp add: getblk_reuse_def bget_in bset_in)
      ultimately show ?thesis by blast
    qed
  qed
qed

lemma lists_kept_refl [simp]: "lists_kept s s" by (simp add: lists_kept_def)

lemma lists_kept_trans: "lists_kept a b \<Longrightarrow> lists_kept b c \<Longrightarrow> lists_kept a c"
  by (simp add: lists_kept_def)

lemma lists_keptD:
  assumes "lists_kept s s'"
  shows "free_links_ok s' = free_links_ok s" "dirty_links_ok s' = dirty_links_ok s"
    "page_head_ok s' = page_head_ok s" "data_of s' = data_of s"
proof -
  from assms show "free_links_ok s' = free_links_ok s"
    by (intro free_links_ok_cong) (simp_all add: lists_kept_def)
  from assms show "dirty_links_ok s' = dirty_links_ok s"
    by (intro dirty_links_ok_cong) (simp_all add: lists_kept_def)
  from assms show "page_head_ok s' = page_head_ok s"
    by (intro page_head_ok_cong) (simp_all add: lists_kept_def)
  from assms show "data_of s' = data_of s"
    by (simp add: lists_kept_def data_of_fld fun_eq_iff)
qed

lemma invalidate_step_kept:
  assumes w: "buffer_wait n s = Some sa" and r: "remove_from_hash n sa = Some sb"
  shows "lists_kept s (bupd n (clear_flags {BUFFER_VALID, BUFFER_LOCKED}) sb)"
proof -
  note W = buffer_wait_effect[OF w]
  then have sa: "sa = bupd n (set_flags {BUFFER_LOCKED}) s" and n: "n < length (buffer_table s)" by simp_all
  note V = V_hashD[OF remove_from_hash_V[OF r]]
  have "flag_on sb = flag_on sa" using V by (intro flag_on_cong) simp
  then have fl: "flag_on (bupd n (clear_flags {BUFFER_VALID, BUFFER_LOCKED}) sb) x BUFFER_DIRTY
      = flag_on s x BUFFER_DIRTY" for x
    using n by (auto simp: sa flag_on_bupd)
  show ?thesis
    unfolding lists_kept_def using V fl by (simp add: sa fld_bupd_same)
qed

lemma invalidate_loop_total:
  assumes "hash_ok s" and "buffer_hash_table s \<noteq> []"
    and "list_all (\<lambda>n. n < length (buffer_table s)) ns"
  shows "\<exists>s'. invalidate_loop ns d s = Some s' \<and> lists_kept s s'"
  using assms
proof (induction ns arbitrary: s)
  case Nil
  then show ?case by simp
next
  case (Cons n ns)
  then have n: "n < length (buffer_table s)" by simp
  let ?b = "buffer_table s ! n"
  show ?case
  proof (cases "BUFFER_LOCKED \<notin> b_flags ?b \<and> b_dev ?b = d")
    case False
    from Cons.IH[OF Cons.prems(1,2)] Cons.prems(3) obtain s' where
      "invalidate_loop ns d s = Some s'" "lists_kept s s'" by auto
    with False n show ?thesis by (auto simp: bget_in)
  next
    case True
    let ?sa = "bupd n (set_flags {BUFFER_LOCKED}) s"
    have w: "buffer_wait n s = Some ?sa" using True n by (simp add: buffer_wait_def bget_in bset_in)
    have oka: "hash_ok ?sa" using Cons.prems(1) by (simp add: hash_ok_flags)
    from remove_from_hash_returns[OF oka] n Cons.prems(2) obtain sb where
      r: "remove_from_hash n ?sa = Some sb" by auto
    let ?s1 = "bupd n (clear_flags {BUFFER_VALID, BUFFER_LOCKED}) sb"
    note I = invalidate_step[OF Cons.prems(1) w r]
    note K = invalidate_step_kept[OF w r]
    from I have ok1: "hash_ok ?s1" and l1: "length (buffer_table ?s1) = length (buffer_table s)"
      and h1: "length (buffer_hash_table ?s1) = length (buffer_hash_table s)"
      by (simp_all add: inval_rel_def)
    have ne1: "buffer_hash_table ?s1 \<noteq> []" using h1 Cons.prems(2) by auto
    have "list_all (\<lambda>n. n < length (buffer_table ?s1)) ns" using Cons.prems(3) l1 by simp
    from Cons.IH[OF ok1 ne1 this] obtain s' where
      lp: "invalidate_loop ns d ?s1 = Some s'" and k': "lists_kept ?s1 s'" by blast
    have nb: "n < length (buffer_table sb)" using l1 n by simp
    have "invalidate_loop (n # ns) d s = Some s'"
      using True n w r nb lp by (simp add: bget_in bset_in)
    with lists_kept_trans[OF K k'] show ?thesis by blast
  qed
qed

lemma invalidate_buffers_total:
  assumes "hash_ok s" and "buffer_hash_table s \<noteq> []"
  shows "\<exists>s'. invalidate_buffers d s = Some s' \<and> lists_kept s s'"
  unfolding invalidate_buffers_def
  using assms by (intro invalidate_loop_total) (simp_all add: list_all_iff)

lemma bread_miss_total:
  assumes ok: "hash_ok s" and fl: "free_links_ok s" and dl: "dirty_links_ok s" and pg: "page_head_ok s"
    and miss: "search_buffer_hash dev block sz s = Some None"
    and cr: "can_read s dev"
    and head: "buffer_head s = Some v" and unl: "\<not> flag_on s v BUFFER_LOCKED"
    and dat: "flag_on s v BUFFER_DIRTY \<longrightarrow> data_of s v \<noteq> None"
  shows "\<exists>r s'. bread dev block sz s = Some (r, s')
     \<and> ((\<exists>w. write_or_nothing w \<and> io_log s' = io_log s @ w @ [ReadBlock dev block sz])
        \<or> (r = None \<and> io_log s' = io_log s \<and> \<not> flag_on s v BUFFER_DIRTY \<and> data_of s v = None
            \<and> (\<exists>t t2. get_free_buffer s = Some (Some v, t) \<and> kmalloc t = Some (None, t2))))"
proof -
  from cr obtain dv rd where dv: "devices s dev = Some dv" and rd: "read_block dv = Some rd"
    by (auto simp: can_read_def split: option.splits)
  from miss have ne: "buffer_hash_table s \<noteq> []"
    by (auto simp: search_buffer_hash_def slot_get_def bind_eq_Some_conv split: if_splits)
  from get_free_buffer_returns[OF fl head unl] obtain t where
    gf: "get_free_buffer s = Some (Some v, t)" and flt: "free_links_ok t" by blast
  note G = get_free_buffer_frame[OF gf]
  from G have lens: "v < length (buffer_table s)" by simp
  have dirty_eq: "BUFFER_DIRTY \<in> b_flags (buffer_table t ! v) \<longleftrightarrow> flag_on s v BUFFER_DIRTY"
    using G lens by (auto simp: flag_on_in)
  have data_eq: "b_data (buffer_table t ! v) = data_of s v"
    using G lens by (simp add: data_of_def bget_in)
  have "\<exists>r t'. getblk_reuse v dev block sz t = Some (r, t')
     \<and> free_links_ok t' \<and> dirty_links_ok t' \<and> length (buffer_table t') = length (buffer_table t)
     \<and> (r = Some v \<and> b_data (buffer_table t' ! v) \<noteq> None
        \<or> r = None \<and> BUFFER_DIRTY \<notin> b_flags (buffer_table t ! v) \<and> b_data (buffer_table t ! v) = None
            \<and> (\<exists>t2. kmalloc t = Some (None, t2)))"
    using G ok dl pg flt ne dat dirty_eq data_eq
    by (intro getblk_reuse_total) simp_all
  then obtain r1 t' where ru: "getblk_reuse v dev block sz t = Some (r1, t')"
    and fl': "free_links_ok t'" and dl': "dirty_links_ok t'"
    and len': "length (buffer_table t') = length (buffer_table t)"
    and c: "r1 = Some v \<and> b_data (buffer_table t' ! v) \<noteq> None
        \<or> r1 = None \<and> BUFFER_DIRTY \<notin> b_flags (buffer_table t ! v) \<and> b_data (buffer_table t ! v) = None
            \<and> (\<exists>t2. kmalloc t = Some (None, t2))"
    by blast
  have gb: "getblk dev block sz s = Some (r1, t')"
    using miss gf ru by (simp add: getblk_def)
  from getblk_reuse_effect[OF ru] obtain w where w: "write_or_nothing w"
    and l1: "io_log t' = io_log t @ w"
    and e: "r1 = None \<and> w = [] \<or> r1 = Some v \<and> v < length (buffer_table t') \<and> \<not> flag_on t' v BUFFER_VALID"
    by blast
  show ?thesis
  proof (cases r1)
    case None
    with c e l1 G gb dv gf dirty_eq data_eq show ?thesis
      by (auto simp: bread_def)
  next
    case (Some x)
    with c e have r1: "r1 = Some v" and lv: "v < length (buffer_table t')"
      and nv: "BUFFER_VALID \<notin> b_flags (buffer_table t' ! v)"
      by (auto simp: flag_on_in)
    from c r1 obtain fr where fr: "b_data (buffer_table t' ! v) = Some fr" by auto
    let ?s2 = "t'\<lparr>io_log := io_log t' @ [ReadBlock dev block sz]\<rparr>"
    show ?thesis
    proof (cases "rd block \<ge> 0")
      case True
      have "bread dev block sz s
          = Some (Some v, bupd v (set_flags {BUFFER_VALID}) (device_read dev block sz fr ?s2))"
        using dv gb r1 lv nv rd True fr
        by (simp add: bread_def bget_in bset_in device_read_def bget_bupd Let_def)
      moreover have "io_log (bupd v (set_flags {BUFFER_VALID}) (device_read dev block sz fr ?s2))
          = io_log s @ w @ [ReadBlock dev block sz]"
        using l1 G by (simp add: device_read_def)
      ultimately show ?thesis using w by blast
    next
      case False
      from brelse_returns[of ?s2 v] fl' dl' lv obtain s3 where
        br: "brelse v ?s2 = Some s3" by auto
      have "bread dev block sz s = Some (None, s3)"
        using dv gb r1 lv nv rd False br
        by (simp add: bread_def bget_in Let_def)
      moreover have "io_log s3 = io_log s @ w @ [ReadBlock dev block sz]"
        using brelse_effect[OF br] l1 G by simp
      ultimately show ?thesis using w by blast
    qed
  qed
qed

section \<open>Scenario evaluations\<close>

lemma cold_read_snapshot:
  "handed cold_read = Some 3 \<and>
   view (after cold_read) = Some
     \<lparr>cv_entries =
        [\<lparr>ev_key = (0, 0, 0), ev_data = None, ev_flags = {}, ev_free = True,
           ev_dirty = False, ev_hash = False\<rparr>,
         \<lparr>ev_key = (0, 0, 0), ev_data = None, ev_flags = {}, ev_free = True,
           ev_dirty = False, ev_hash = False\<rparr>,
         \<lparr>ev_key = (0, 0, 0), ev_data = None, ev_flags = {}, ev_free = True,
           ev_dirty = False, ev_hash = False\<rparr>,
         \<lparr>ev_key = (1, 7, 1024), ev_data = Some 0,
           ev_flags = {BUFFER_VALID, BUFFER_LOCKED}, ev_free = False,
           ev_dirty = False, ev_hash = True\<rparr>],
      cv_free_tail = Some 0, cv_dirty_head = None, cv_buffers = 4, cv_dirty = 0,
      cv_log = [ReadBlock 1 7 1024]\<rparr>"
  by code_simp

lemma cold_read_released_snapshot:
  "view (then_brelse cold_read) = Some
     \<lparr>cv_entries =
        [\<lparr>ev_key = (0, 0, 0), ev_data = None, ev_flags = {}, ev_free = True,
           ev_dirty = False, ev_hash = False\<rparr>,
         \<lparr>ev_key = (0, 0, 0), ev_data = None, ev_flags = {}, ev_free = True,
           ev_dirty = False, ev_hash = False\<rparr>,
         \<lparr>ev_key = (0, 0, 0), ev_data = None, ev_flags = {}, ev_free = True,
           ev_dirty = False, ev_hash = False\<rparr>,
         \<lparr>ev_key = (1, 7, 1024), ev_data = Some 0, ev_flags = {BUFFER_VALID},
           ev_free = True, ev_dirty = False, ev_hash = True\<rparr>],
      cv_free_tail = Some 3, cv_dirty_head = None, cv_buffers = 4, cv_dirty = 0,
      cv_log = [ReadBlock 1 7 1024]\<rparr>"
  by code_simp

lemma evict_rewritten_snapshot:
  "handed evict_rewritten = Some 2 \<and>
   view (after evict_rewritten) = Some
     \<lparr>cv_entries =
        [\<lparr>ev_key = (1, 9, 1024), ev_data = Some 2, ev_flags = {BUFFER_VALID},
           ev_free = True, ev_dirty = False, ev_hash = True\<rparr>,
         \<lparr>ev_key = (1, 8, 1024), ev_data = Some 1, ev_flags = {BUFFER_VALID},
           ev_free = True, ev_dirty = False, ev_hash = True\<rparr>,
         \<lparr>ev_key = (1, 10, 1024), ev_data = Some 0,
           ev_flags = {BUFFER_VALID, BUFFER_LOCKED}, ev_free = False,
           ev_dirty = True, ev_hash = True\<rparr>],
      cv_free_tail = Some 0, cv_dirty_head = Some 2, cv_buffers = 12, cv_dirty = 4,
      cv_log =
        [ReadBlock 1 7 1024, ReadBlock 1 8 1024, ReadBlock 1 9 1024,
         WriteBlock 1 7 (Some 0) 1024, ReadBlock 1 10 1024]\<rparr>"
  by code_simp

lemma rewrite_twice_snapshot:
  "view rewrite_twice = Some
     \<lparr>cv_entries =
        [\<lparr>ev_key = (0, 0, 0), ev_data = None, ev_flags = {}, ev_free = True,
           ev_dirty = False, ev_hash = False\<rparr>,
         \<lparr>ev_key = (0, 0, 0), ev_data = None, ev_flags = {}, ev_free = True,
           ev_dirty = False, ev_hash = False\<rparr>,
         \<lparr>ev_key = (1, 7, 1024), ev_data = Some 0,
           ev_flags = {BUFFER_DIRTY, BUFFER_VALID}, ev_free = True,
           ev_dirty = True, ev_hash = True\<rparr>],
      cv_free_tail = Some 2, cv_dirty_head = Some 2, cv_buffers = 4, cv_dirty = 8,
      cv_log = [ReadBlock 1 7 1024]\<rparr>"
  by code_simp



lemma cached7_no_memory_obs:
  "reread_obs 1 7 1024 2 (the cached7_no_memory) = (True, Some (Some 2), False, True, True, True)"
  by code_simp

lemma cached7_no_memory_reread:
  "handed (then_bread 1 7 1024 (then_invalidate 1 cached7_no_memory)) = None
   \<and> map_option cv_log (view (after (then_bread 1 7 1024 (then_invalidate 1 cached7_no_memory))))
       = Some [ReadBlock 1 7 1024]"
  by code_simp

lemma three_clean_reclaim_obs:
  "reclaim_obs 2 (the three_clean) = (True, True, Some 2, [2, 3])"
  by code_simp

lemma cached7_ready: "reread_ready 1 7 1024 1 (the cached7)"
  by code_simp

lemma cached7_no_memory_ready: "reread_ready 1 7 1024 1 (the cached7_no_memory)"
  by code_simp

lemma cached7_reread:
  "search_buffer_hash 1 7 1024 (the cached7) = Some (Some 2)
   \<and> handed (then_bread 1 7 1024 (then_invalidate 1 cached7)) = Some 1
   \<and> map_option cv_log (view (after (then_bread 1 7 1024 (then_invalidate 1 cached7))))
       = Some [ReadBlock 1 7 1024, ReadBlock 1 7 1024]"
  by code_simp

section \<open>Claims\<close>

text \<open>
  C8, as stated: after the cold read the entry is released onto the free-list tail and
  \<^verbatim>\<open>buffers_kib\<close> is 1. On fresh caches of four buffers the entry that \<^verbatim>\<open>bread\<close> hands out is
  still locked and off the free list, whose tail is entry 0, and the counter is 4.
\<close>

theorem cold_read_counterexample:
  "handed cold_read = Some 3
   \<and> map_option cv_buffers (view (after cold_read)) = Some 4
   \<and> map_option (ev_free \<circ> entry_at 3) (view (after cold_read)) = Some False
   \<and> map_option cv_free_tail (view (after cold_read)) = Some (Some 0)"
  using cold_read_snapshot by (simp add: entry_at_def)

text \<open>
  C8, amended: starting from freshly initialised caches, \<^verbatim>\<open>bread(1, 7, 1024)\<close> makes exactly
  one \<^verbatim>\<open>read_block(1, 7, ..., 1024)\<close> call and hands out an entry that is \<^verbatim>\<open>VALID\<close>, still
  \<^verbatim>\<open>LOCKED\<close> and off the free list; the counter of buffer memory is
  \<^verbatim>\<open>PAGE_SIZE / 1024\<close>, that is 4; the entry reaches the free-list tail when the caller
  releases it with \<^verbatim>\<open>brelse\<close>.
\<close>

theorem cold_read_amended:
  "handed cold_read = Some 3
   \<and> map_option cv_log (view (after cold_read)) = Some [ReadBlock 1 7 1024]
   \<and> map_option (ev_flags \<circ> entry_at 3) (view (after cold_read))
       = Some {BUFFER_VALID, BUFFER_LOCKED}
   \<and> map_option (ev_free \<circ> entry_at 3) (view (after cold_read)) = Some False
   \<and> map_option cv_buffers (view (after cold_read)) = Some (int (PAGE_SIZE div 1024))
   \<and> map_option cv_buffers (view (after cold_read)) = Some 4
   \<and> map_option cv_free_tail (view (then_brelse cold_read)) = Some (Some 3)
   \<and> map_option (ev_flags \<circ> entry_at 3) (view (then_brelse cold_read)) = Some {BUFFER_VALID}"
  using cold_read_snapshot cold_read_released_snapshot
  by (simp add: entry_at_def PAGE_SIZE_def)




text \<open>
  C3, evaluated where the code leaves it. Block 7 is read and marked dirty twice while its
  entry is the only element of the dirty list: \<^verbatim>\<open>insert_on_dirty_list\<close> takes the entry
  for absent (both of its dirty links are \<^verbatim>\<open>NULL\<close>), links it to itself and counts it a
  second time. When the entry is reused for block 10 its write-back succeeds and clears
  \<^verbatim>\<open>DIRTY\<close>, but \<^verbatim>\<open>buffer_dirty_head\<close> still points at it: the entry is on the dirty list
  without the flag.
\<close>

theorem dirty_flag_without_membership:
  "map_option cv_dirty (view rewrite_twice) = Some 8
   \<and> handed evict_rewritten = Some 2
   \<and> map_option (ev_flags \<circ> entry_at 2) (view (after evict_rewritten))
       = Some {BUFFER_VALID, BUFFER_LOCKED}
   \<and> map_option (ev_dirty \<circ> entry_at 2) (view (after evict_rewritten)) = Some True
   \<and> map_option cv_dirty_head (view (after evict_rewritten)) = Some (Some 2)"
  using rewrite_twice_snapshot evict_rewritten_snapshot by (simp add: entry_at_def)



text \<open>
  C5: \<^verbatim>\<open>NR_BUF_RECLAIM\<close> is positive and the hash is well formed. When a call of
  \<^verbatim>\<open>reclaim_buffers\<close> returns, its value is the number of entries that lost their frame and
  it is at most \<^verbatim>\<open>NR_BUF_RECLAIM\<close>; no entry that was \<^verbatim>\<open>LOCKED\<close> lost its frame; every entry
  that lost its frame has a \<^verbatim>\<open>NULL\<close> data pointer and is in no hash chain; every other entry
  has the data pointer it had.
\<close>

theorem reclaim_buffers_bound:
  assumes "0 < R" and "hash_ok s" and "reclaim_buffers R s = Some (n, s')"
  shows "n \<le> R \<and> card (freed s s') = n
    \<and> (\<forall>i \<in> freed s s'. \<not> has_flag s i BUFFER_LOCKED \<and> data_of s' i = None \<and> \<not> in_hash s' i)
    \<and> (\<forall>i. i \<notin> freed s s' \<longrightarrow> data_of s' i = data_of s i)"
proof -
  from reclaim_loop_rel[OF assms(3)[unfolded reclaim_buffers_def] assms(1,2)]
  have n: "n \<le> R" and rel: "reclaim_rel s s' n" by simp_all
  from rel have c: "card (freed s s') = n"
    and d: "\<And>i. data_of s' i = data_of s i
            \<or> (data_of s i \<noteq> None \<and> data_of s' i = None \<and> \<not> has_flag s i BUFFER_LOCKED
                \<and> \<not> in_hash s' i)"
    by (simp_all add: reclaim_rel_def)
  have "\<not> has_flag s i BUFFER_LOCKED \<and> data_of s' i = None \<and> \<not> in_hash s' i"
    if "i \<in> freed s s'" for i
    using d[of i] that by (auto simp: freed_iff)
  moreover have "data_of s' i = data_of s i" if "i \<notin> freed s s'" for i
    using d[of i] that by (auto simp: freed_iff)
  ultimately show ?thesis using n c by blast
qed

theorem reclaim_buffers_bound_witness:
  "fst (the (reclaim_buffers 2 (the three_clean))) = 2
   \<and> freed (the three_clean) (snd (the (reclaim_buffers 2 (the three_clean)))) = {2, 3}
   \<and> \<not> has_flag (the three_clean) 2 BUFFER_LOCKED
   \<and> data_of (snd (the (reclaim_buffers 2 (the three_clean)))) 2 = None
   \<and> \<not> in_hash (snd (the (reclaim_buffers 2 (the three_clean)))) 2
   \<and> \<not> has_flag (the three_clean) 3 BUFFER_LOCKED
   \<and> data_of (snd (the (reclaim_buffers 2 (the three_clean)))) 3 = None
   \<and> \<not> in_hash (snd (the (reclaim_buffers 2 (the three_clean)))) 3
   \<and> data_of (snd (the (reclaim_buffers 2 (the three_clean)))) 1 = data_of (the three_clean) 1"
proof -
  let ?s = "the three_clean"
  let ?r = "the (reclaim_buffers 2 ?s)"
  note o = three_clean_reclaim_obs[unfolded reclaim_obs_def prod.inject]
  from o have h1: "hash_ok ?s" by blast
  from o have "\<not> Option.is_none (reclaim_buffers 2 ?s)" by blast
  then have h2: "reclaim_buffers 2 ?s = Some (fst ?r, snd ?r)"
    by (cases "reclaim_buffers 2 ?s") (simp_all add: Option.is_none_def)
  from o have "map_option fst (reclaim_buffers 2 ?s) = Some 2" by blast
  then have n: "fst ?r = 2" by (cases "reclaim_buffers 2 ?s") auto
  from o have "sorted_list_of_set (freed ?s (snd ?r)) = [2, 3]" by blast
  then have "set (sorted_list_of_set (freed ?s (snd ?r))) = {2, 3}" by simp
  then have f: "freed ?s (snd ?r) = {2, 3}" by (simp add: freed_finite)
  from reclaim_buffers_bound[OF _ h1 h2] n f show ?thesis by simp
qed

text \<open>
  C7, amended. The hash is well formed, the links of the free list and of the dirty list
  point into the table, \<^verbatim>\<open>get_free_page\<close> can take the head of its list, block \<open>b\<close> of device
  \<open>d\<close> is cached and no entry holding it is \<^verbatim>\<open>LOCKED\<close>, the device has a \<^verbatim>\<open>read_block\<close>
  method, and the free list starts with an unlocked entry \<open>v\<close> that has a frame if it is
  \<^verbatim>\<open>DIRTY\<close>. Then \<^verbatim>\<open>invalidate_buffers(d)\<close> returns, the cached entry is out of the hash and
  its \<^verbatim>\<open>VALID\<close> is clear, so the lookup of the next \<^verbatim>\<open>bread(d, b, s)\<close> misses and the cached
  copy is not returned. That \<^verbatim>\<open>bread\<close> returns as well: either its last device call is
  \<^verbatim>\<open>read_block(d, b, ..., s)\<close>, after at most one write-back of the buffer it reuses, or it
  returns \<^verbatim>\<open>NULL\<close> without any device call, and then \<open>v\<close>, the entry it took from the free
  list, is clean and has no frame, and \<^verbatim>\<open>kmalloc\<close> returned \<^verbatim>\<open>NULL\<close>.
\<close>

theorem invalidate_then_bread:
  assumes ok: "hash_ok s" and fl: "free_links_ok s" and dl: "dirty_links_ok s" and pg: "page_head_ok s"
    and cached: "search_buffer_hash d b sz s = Some (Some e)"
    and unlocked: "block_unlocked d b sz s"
    and cr: "can_read s d"
    and head: "buffer_head s = Some v" and vu: "\<not> has_flag s v BUFFER_LOCKED"
    and vd: "has_flag s v BUFFER_DIRTY \<longrightarrow> data_of s v \<noteq> None"
  shows "\<exists>s1 r s2. invalidate_buffers d s = Some s1
      \<and> \<not> in_hash s1 e \<and> \<not> has_flag s1 e BUFFER_VALID \<and> search_buffer_hash d b sz s1 = Some None
      \<and> bread d b sz s1 = Some (r, s2)
      \<and> ((\<exists>w. write_or_nothing w \<and> io_log s2 = io_log s1 @ w @ [ReadBlock d b sz])
         \<or> (r = None \<and> io_log s2 = io_log s1 \<and> \<not> has_flag s1 v BUFFER_DIRTY \<and> data_of s1 v = None
             \<and> (\<exists>t t2. get_free_buffer s1 = Some (Some v, t) \<and> kmalloc t = Some (None, t2))))"
proof -
  let ?k = "BUFFER_HASH d b s"
  have k: "?k < length (buffer_hash_table s)"
    using cached by (auto simp: search_buffer_hash_def slot_get_def bind_eq_Some_conv split: if_splits)
  then have ne: "buffer_hash_table s \<noteq> []" by auto
  from invalidate_buffers_total[OF ok ne, of d] obtain s1 where
    inv: "invalidate_buffers d s = Some s1" and kept: "lists_kept s s1" by blast
  note I = invalidate_loop_inv[OF ok inv[unfolded invalidate_buffers_def]]
  then have rel: "inval_rel s s1" by simp
  then have ok1: "hash_ok s1" and dev1: "devices s1 = devices s"
    and lh: "length (buffer_hash_table s1) = length (buffer_hash_table s)"
    and lt: "length (buffer_table s1) = length (buffer_table s)"
    and keys: "fld b_dev s1 = fld b_dev s" "fld b_block s1 = fld b_block s" "fld b_size s1 = fld b_size s"
    and locked: "\<And>x. flag_on s1 x BUFFER_LOCKED = flag_on s x BUFFER_LOCKED"
    by (simp_all add: inval_rel_def)
  have k1: "BUFFER_HASH d b s1 = ?k" using lh by (simp add: BUFFER_HASH_def)
  note c = hash_okD[OF ok k]
  have nolock: "\<not> flag_on s x BUFFER_LOCKED"
    if "x < length (buffer_table s)" "b_dev (buffer_table s ! x) = d"
      "b_block (buffer_table s ! x) = b" "b_size (buffer_table s ! x) = sz" for x
    using unlocked that by (auto simp: block_unlocked_def list_all_length flag_on_in)
  from search_buffer_hash_chain[OF c k, of sz] cached
  have fe: "find (\<lambda>x. b_dev (buffer_table s ! x) = d \<and> b_block (buffer_table s ! x) = b
                      \<and> b_size (buffer_table s ! x) = sz) (chain_of s ?k) = Some e" by simp
  then have e_in: "e \<in> set (chain_of s ?k)" and e_key: "b_dev (buffer_table s ! e) = d"
    "b_block (buffer_table s ! e) = b" "b_size (buffer_table s ! e) = sz"
    by (auto simp: find_Some_iff)
  from chain_valid[OF c e_in] have e_len: "e < length (buffer_table s)" by simp
  have gone: "\<not> in_hash s1 x \<and> \<not> flag_on s1 x BUFFER_VALID"
    if "x < length (buffer_table s)" "fld b_dev s x = Some d" "\<not> flag_on s x BUFFER_LOCKED" for x
    using I that by auto
  have e_gone: "\<not> in_hash s1 e \<and> \<not> flag_on s1 e BUFFER_VALID"
    using gone[OF e_len] e_key e_len nolock[OF e_len] by (simp add: fld_in)
  note c1 = hash_okD[OF ok1, of ?k, unfolded lh, OF k]
  from search_buffer_hash_chain[of s1 d b "chain_of s1 ?k" sz] c1 k
  have s1find: "search_buffer_hash d b sz s1 = Some (find (\<lambda>x. b_dev (buffer_table s1 ! x) = d
       \<and> b_block (buffer_table s1 ! x) = b \<and> b_size (buffer_table s1 ! x) = sz) (chain_of s1 ?k))"
    by (simp add: k1 lh)
  have miss: "search_buffer_hash d b sz s1 = Some None"
  proof (rule ccontr)
    assume "search_buffer_hash d b sz s1 \<noteq> Some None"
    with s1find obtain x where
      fx: "find (\<lambda>x. b_dev (buffer_table s1 ! x) = d
       \<and> b_block (buffer_table s1 ! x) = b \<and> b_size (buffer_table s1 ! x) = sz) (chain_of s1 ?k) = Some x"
      by (cases "find (\<lambda>x. b_dev (buffer_table s1 ! x) = d
       \<and> b_block (buffer_table s1 ! x) = b \<and> b_size (buffer_table s1 ! x) = sz) (chain_of s1 ?k)") auto
    from fx have x_in: "x \<in> set (chain_of s1 ?k)" and x_key: "b_dev (buffer_table s1 ! x) = d"
      "b_block (buffer_table s1 ! x) = b" "b_size (buffer_table s1 ! x) = sz"
      by (auto simp: find_Some_iff)
    from chain_valid[OF c1 x_in] have x_len1: "x < length (buffer_table s1)" by simp
    then have x_len: "x < length (buffer_table s)" using lt by simp
    have inh: "in_hash s1 x" using x_in k lh by (auto simp: in_hash_chain_of)
    have x_key0: "b_dev (buffer_table s ! x) = d" "b_block (buffer_table s ! x) = b"
      "b_size (buffer_table s ! x) = sz"
      using x_key fun_cong[OF keys(1), of x] fun_cong[OF keys(2), of x] fun_cong[OF keys(3), of x]
      by (simp_all add: fld_in[OF x_len] fld_in[OF x_len1])
    from gone[OF x_len] x_key0 nolock[OF x_len x_key0] inh show False
      by (simp add: fld_in[OF x_len])
  qed
  note K = lists_keptD[OF kept]
  from cr dev1 have cr1: "can_read s1 d" by (simp add: can_read_def)
  have head1: "buffer_head s1 = Some v" using kept head by (simp add: lists_kept_def)
  have vu1: "\<not> flag_on s1 v BUFFER_LOCKED" using vu locked by (simp add: has_flag_flag_on)
  have vd1: "flag_on s1 v BUFFER_DIRTY \<longrightarrow> data_of s1 v \<noteq> None"
    using vd kept K by (simp add: has_flag_flag_on lists_kept_def)
  from bread_miss_total[OF ok1 _ _ _ miss cr1 head1 vu1 vd1] K fl dl pg
  obtain r s2 where "bread d b sz s1 = Some (r, s2)"
    and "(\<exists>w. write_or_nothing w \<and> io_log s2 = io_log s1 @ w @ [ReadBlock d b sz])
        \<or> (r = None \<and> io_log s2 = io_log s1 \<and> \<not> flag_on s1 v BUFFER_DIRTY \<and> data_of s1 v = None
            \<and> (\<exists>t t2. get_free_buffer s1 = Some (Some v, t) \<and> kmalloc t = Some (None, t2)))"
    by auto
  with inv e_gone miss show ?thesis
    by (auto simp: has_flag_flag_on)
qed

theorem invalidate_then_bread_witness:
  "\<exists>s1 s2. invalidate_buffers 1 (the cached7) = Some s1
      \<and> \<not> in_hash s1 2 \<and> \<not> has_flag s1 2 BUFFER_VALID
      \<and> search_buffer_hash 1 7 1024 s1 = Some None
      \<and> bread 1 7 1024 s1 = Some (Some 1, s2)
      \<and> io_log s2 = [ReadBlock 1 7 1024, ReadBlock 1 7 1024]"
proof -
  let ?s = "the cached7"
  note o = cached7_ready[unfolded reread_ready_def]
  from o have h1: "hash_ok ?s" and h2: "free_links_ok ?s" and h3: "dirty_links_ok ?s"
    and h4: "page_head_ok ?s" and h5: "block_unlocked 1 7 1024 ?s" and h6: "can_read ?s 1"
    and h7: "buffer_head ?s = Some 1" and h8: "\<not> has_flag ?s 1 BUFFER_LOCKED"
    and h9: "has_flag ?s 1 BUFFER_DIRTY \<longrightarrow> data_of ?s 1 \<noteq> None"
    by blast+
  from cached7_reread have c: "search_buffer_hash 1 7 1024 ?s = Some (Some 2)"
    and hd: "handed (then_bread 1 7 1024 (then_invalidate 1 cached7)) = Some 1"
    and lg: "map_option cv_log (view (after (then_bread 1 7 1024 (then_invalidate 1 cached7))))
       = Some [ReadBlock 1 7 1024, ReadBlock 1 7 1024]" by blast+
  from hd obtain c7 where c7: "cached7 = Some c7"
    by (cases cached7) (simp_all add: handed_def then_bread_def then_invalidate_def)
  from invalidate_then_bread[OF h1 h2 h3 h4 c h5 h6 h7 h8 h9]
  obtain s1 r s2 where inv: "invalidate_buffers 1 ?s = Some s1"
    and gone: "\<not> in_hash s1 2" "\<not> has_flag s1 2 BUFFER_VALID"
      "search_buffer_hash 1 7 1024 s1 = Some None"
    and br: "bread 1 7 1024 s1 = Some (r, s2)" by blast
  have run: "then_bread 1 7 1024 (then_invalidate 1 cached7) = Some (r, s2)"
    using inv br by (simp add: c7 then_bread_def then_invalidate_def)
  from hd[unfolded run] lg[unfolded run]
  have "r = Some 1" "io_log s2 = [ReadBlock 1 7 1024, ReadBlock 1 7 1024]"
    by (simp_all add: handed_def after_def view_def snapshot_def)
  with inv gone br show ?thesis by blast
qed

text \<open>
  C7, as stated: after \<^verbatim>\<open>invalidate_buffers(d)\<close> the next \<^verbatim>\<open>bread(d, b, s)\<close> invokes
  \<^verbatim>\<open>read_block\<close> again. With three buffers and a single page frame, block 7 of device 1
  is cached and unlocked; after the invalidation \<^verbatim>\<open>bread(1, 7, 1024)\<close> takes a buffer
  without a frame from the free list, \<^verbatim>\<open>kmalloc\<close> has no frame left, and \<^verbatim>\<open>bread\<close> returns
  \<^verbatim>\<open>NULL\<close>: the only device call of the whole run is the first read.
\<close>

theorem invalidate_then_bread_counterexample:
  "search_buffer_hash 1 7 1024 (the cached7_no_memory) = Some (Some 2)
   \<and> \<not> has_flag (the cached7_no_memory) 2 BUFFER_LOCKED
   \<and> can_read (the cached7_no_memory) 1
   \<and> reread_ready 1 7 1024 1 (the cached7_no_memory)
   \<and> handed (then_bread 1 7 1024 (then_invalidate 1 cached7_no_memory)) = None
   \<and> map_option cv_log (view (after (then_bread 1 7 1024 (then_invalidate 1 cached7_no_memory))))
       = Some [ReadBlock 1 7 1024]"
  using cached7_no_memory_obs cached7_no_memory_reread cached7_no_memory_ready
  by (simp add: reread_obs_def)

end
